theory Spec2Isabelle
  imports Main "HOL-Library.Word"
begin

section \<open>Higher-order functions over slices and channels\<close>

text \<open>
  The Go source fixes one element type, \<^verbatim>\<open>type T int\<close>, and says that \<^verbatim>\<open>T\<close> may be set
  to any type. No operation inspects an element except through the function it is handed,
  so the operations are modelled over an arbitrary element type \<open>'a\<close>; \<^verbatim>\<open>make([]T, n)\<close>
  fills a slice with the zero value of \<^verbatim>\<open>T\<close>, hence the sort \<open>zero\<close> where a slice is
  pre-sized. The examples of the source's \<^verbatim>\<open>main\<close> are stated at \<^verbatim>\<open>T = int\<close>, Go's \<^verbatim>\<open>int\<close> on
  a 64-bit target: a 64-bit two's-complement integer whose arithmetic wraps around.

  The counters \<^verbatim>\<open>n int\<close> of \<^verbatim>\<open>take\<close> and \<^verbatim>\<open>drop\<close> are machine integers: a word of any
  length \<open>'w\<close>, compared as signed values (\<open>\<le>s\<close>, \<open><s\<close>) and decremented with wrap-around.
\<close>

type_synonym T = "64 word"

subsection \<open>Run-time panics\<close>

datatype panic =
    IndexOutOfRange
  | SendOnClosedChannel
  | CloseOfClosedChannel
  | NegativeWaitGroupCounter

text \<open>\<^verbatim>\<open>to[i] = v\<close>: Go panics when \<open>i\<close> is not an index of \<open>to\<close>.\<close>

definition store :: "'a list \<Rightarrow> nat \<Rightarrow> 'a \<Rightarrow> panic + 'a list" where
  "store to i v = (if i < length to then Inr (to[i := v]) else Inl IndexOutOfRange)"

subsection \<open>Slice operations\<close>

text \<open>
  \<^verbatim>\<open>
  func mapT(f func(T) T, from []T) []T {
      to := make([]T, len(from))
      for i, v := range from {
          to[i] = f(v)
      }
      return to
  }
  \<close>
  The loop is a recursion over the elements not yet visited; \<open>i\<close> is the index of the
  next one.
\<close>

fun mapT_loop :: "('a \<Rightarrow> 'a) \<Rightarrow> 'a list \<Rightarrow> nat \<Rightarrow> 'a list \<Rightarrow> panic + 'a list" where
  "mapT_loop f [] i to = Inr to"
| "mapT_loop f (v # vs) i to =
     (case store to i (f v) of
        Inl e \<Rightarrow> Inl e
      | Inr to' \<Rightarrow> mapT_loop f vs (Suc i) to')"

definition mapT :: "('a::zero \<Rightarrow> 'a) \<Rightarrow> 'a list \<Rightarrow> panic + 'a list" where
  "mapT f from = mapT_loop f from 0 (replicate (length from) 0)"

text \<open>
  \<^verbatim>\<open>
  func filterT(f func(T) bool, from []T) []T {
      to := make([]T, 0)
      for _, v := range from {
          if f(v) {
              to = append(to, v)
          }
      }
      return to
  }
  \<close>
\<close>

fun filterT_loop :: "('a \<Rightarrow> bool) \<Rightarrow> 'a list \<Rightarrow> 'a list \<Rightarrow> 'a list" where
  "filterT_loop f [] to = to"
| "filterT_loop f (v # vs) to = filterT_loop f vs (if f v then to @ [v] else to)"

definition filterT :: "('a \<Rightarrow> bool) \<Rightarrow> 'a list \<Rightarrow> 'a list" where
  "filterT f from = filterT_loop f from []"

text \<open>\<^verbatim>\<open>removeT\<close> is the same loop with the test \<^verbatim>\<open>if !f(n)\<close>.\<close>

fun removeT_loop :: "('a \<Rightarrow> bool) \<Rightarrow> 'a list \<Rightarrow> 'a list \<Rightarrow> 'a list" where
  "removeT_loop f [] to = to"
| "removeT_loop f (n # ns) to = removeT_loop f ns (if \<not> f n then to @ [n] else to)"

definition removeT :: "('a \<Rightarrow> bool) \<Rightarrow> 'a list \<Rightarrow> 'a list" where
  "removeT f from = removeT_loop f from []"

text \<open>
  \<^verbatim>\<open>
  func take(n int, from []T) []T {
      to := make([]T, 0)
      for _, v := range from {
          if n <= 0 {
              break
          }
          to = append(to, v)
          n -= 1
      }
      return to
  }
  \<close>
\<close>

fun take_loop :: "'w::len word \<Rightarrow> 'a list \<Rightarrow> 'a list \<Rightarrow> 'a list" where
  "take_loop n [] to = to"
| "take_loop n (v # vs) to =
     (if n \<le>s 0 then to else take_loop (n - 1) vs (to @ [v]))"

definition take_go :: "'w::len word \<Rightarrow> 'a list \<Rightarrow> 'a list" where
  "take_go n from = take_loop n from []"

text \<open>
  \<^verbatim>\<open>
  func drop(n int, from []T) []T {
      to := make([]T, 0)
      for _, v := range from {
          if n > 0 {
              n -= 1
              continue
          }
          to = append(to, v)
      }
      return to
  }
  \<close>
\<close>

fun drop_loop :: "'w::len word \<Rightarrow> 'a list \<Rightarrow> 'a list \<Rightarrow> 'a list" where
  "drop_loop n [] to = to"
| "drop_loop n (v # vs) to =
     (if 0 <s n then drop_loop (n - 1) vs to else drop_loop n vs (to @ [v]))"

definition drop_go :: "'w::len word \<Rightarrow> 'a list \<Rightarrow> 'a list" where
  "drop_go n from = drop_loop n from []"

text \<open>
  \<^verbatim>\<open>
  func foldlT(f func(T, T) T, z T, xs []T) T {
      if len(xs) == 0 {
          return z
      } else {
          x := xs[0]
          xs = xs[1:]
          return foldlT(f, f(z, x), xs)
      }
  }
  \<close>
  The recursion is on the slice \<^verbatim>\<open>xs[1:]\<close>; its termination is proved from the length.
\<close>

function foldlT :: "('a \<Rightarrow> 'a \<Rightarrow> 'a) \<Rightarrow> 'a \<Rightarrow> 'a list \<Rightarrow> 'a" where
  "foldlT f z xs =
     (if length xs = 0 then z
      else let x = xs ! 0; xs' = drop 1 xs in foldlT f (f z x) xs')"
  by pat_completeness auto
termination
  by (relation "measure (\<lambda>(f, z, xs). length xs)") auto

text \<open>
  \<^verbatim>\<open>
  func foldrT(f func(T, T) T, z T, xs []T) T {
      if len(xs) == 0 {
          return z
      } else {
          x := xs[0]
          xs = xs[1:]
          return f(x, foldrT(f, z, xs))
      }
  }
  \<close>
\<close>

function foldrT :: "('a \<Rightarrow> 'a \<Rightarrow> 'a) \<Rightarrow> 'a \<Rightarrow> 'a list \<Rightarrow> 'a" where
  "foldrT f z xs =
     (if length xs = 0 then z
      else let x = xs ! 0; xs' = drop 1 xs in f x (foldrT f z xs'))"
  by pat_completeness auto
termination
  by (relation "measure (\<lambda>(f, z, xs). length xs)") auto

text \<open>
  The same two functions with a bound \<open>d\<close> on the depth of the call stack: a call needs
  one frame, and each recursive call runs in the frames left. \<open>None\<close> is the stack
  running out.
\<close>

fun foldlT_depth :: "nat \<Rightarrow> ('a \<Rightarrow> 'a \<Rightarrow> 'a) \<Rightarrow> 'a \<Rightarrow> 'a list \<Rightarrow> 'a option" where
  "foldlT_depth d f z xs =
     (if length xs = 0 then Some z
      else case d of
        0 \<Rightarrow> None
      | Suc d' \<Rightarrow> let x = xs ! 0; xs' = drop 1 xs in foldlT_depth d' f (f z x) xs')"

fun foldrT_depth :: "nat \<Rightarrow> ('a \<Rightarrow> 'a \<Rightarrow> 'a) \<Rightarrow> 'a \<Rightarrow> 'a list \<Rightarrow> 'a option" where
  "foldrT_depth d f z xs =
     (if length xs = 0 then Some z
      else case d of
        0 \<Rightarrow> None
      | Suc d' \<Rightarrow> let x = xs ! 0; xs' = drop 1 xs in
          (case foldrT_depth d' f z xs' of None \<Rightarrow> None | Some r \<Rightarrow> Some (f x r)))"

text \<open>
  Each of the four is one equation with the function on both sides: it is unfolded where
  a proof asks for it, not by the simplifier on its own.
\<close>

declare foldlT.simps [simp del] foldrT.simps [simp del]
  foldlT_depth.simps [simp del] foldrT_depth.simps [simp del]

text \<open>\<^verbatim>\<open>func(x, y T) T { return x - y }\<close>, the subtraction of the source's \<^verbatim>\<open>main\<close>.\<close>

definition sub :: "T \<Rightarrow> T \<Rightarrow> T" where
  "sub x y = x - y"

subsection \<open>Slices in memory\<close>

text \<open>
  The functions above take and return the elements of a slice. A Go slice is also a view
  of an array: the array it points into, the offset of its first element there, its
  length and its capacity. Two slices share elements when they view the same array.
  Arrays are numbered; the memory holds the contents of each array and the number the
  next allocation gets.
\<close>

record slice =
  s_arr :: nat
  s_off :: nat
  s_len :: nat
  s_cap :: nat

record 'a memory =
  arrays :: "nat \<Rightarrow> 'a list"
  next_array :: nat

text \<open>The elements a slice shows, and a slice that lies inside an allocated array.\<close>

definition elems :: "'a memory \<Rightarrow> slice \<Rightarrow> 'a list" where
  "elems h s = take (s_len s) (drop (s_off s) (arrays h (s_arr s)))"

definition valid :: "'a memory \<Rightarrow> slice \<Rightarrow> bool" where
  "valid h s \<longleftrightarrow>
     s_arr s < next_array h \<and> s_len s \<le> s_cap s
     \<and> s_off s + s_cap s \<le> length (arrays h (s_arr s))"

text \<open>
  \<^verbatim>\<open>make([]T, n)\<close> allocates an array of \<open>n\<close> zero values and returns the slice of all of
  it. (An array of no elements gets a number of its own here; Go gives every allocation
  of size zero one address, at which no element is stored.)
\<close>

definition make_slice :: "nat \<Rightarrow> 'a::zero memory \<Rightarrow> slice \<times> 'a memory" where
  "make_slice n h =
     (\<lparr>s_arr = next_array h, s_off = 0, s_len = n, s_cap = n\<rparr>,
      h\<lparr>arrays := (arrays h)(next_array h := replicate n 0),
        next_array := Suc (next_array h)\<rparr>)"

text \<open>
  \<^verbatim>\<open>append(s, v)\<close> writes \<open>v\<close> after the last element of \<open>s\<close>, in the array of \<open>s\<close> when
  its capacity allows and otherwise in a newly allocated array, to which the elements of
  \<open>s\<close> are copied first. How much larger the new array is, is the Go runtime's choice
  and not in the source: it is the parameter \<open>grow\<close>, from the old capacity to the one
  asked for, and the new capacity is never less than the new length.
\<close>

definition append_go :: "(nat \<Rightarrow> nat) \<Rightarrow> slice \<Rightarrow> 'a::zero \<Rightarrow> 'a memory \<Rightarrow> slice \<times> 'a memory" where
  "append_go grow s v h =
     (if s_len s < s_cap s
      then (s\<lparr>s_len := Suc (s_len s)\<rparr>,
            h\<lparr>arrays := (arrays h)(s_arr s := (arrays h (s_arr s))[s_off s + s_len s := v])\<rparr>)
      else
        let c = max (Suc (s_len s)) (grow (s_cap s)); a = next_array h in
        (\<lparr>s_arr = a, s_off = 0, s_len = Suc (s_len s), s_cap = c\<rparr>,
         h\<lparr>arrays := (arrays h)(a := elems h s @ v # replicate (c - Suc (s_len s)) 0),
           next_array := Suc a\<rparr>))"

text \<open>\<^verbatim>\<open>s[i] = x\<close>, as the caller of a function may write through a slice it holds.\<close>

definition write_elem :: "'a memory \<Rightarrow> slice \<Rightarrow> nat \<Rightarrow> 'a \<Rightarrow> panic + 'a memory" where
  "write_elem h s i x =
     (if i < s_len s
      then Inr (h\<lparr>arrays := (arrays h)(s_arr s := (arrays h (s_arr s))[s_off s + i := x])\<rparr>)
      else Inl IndexOutOfRange)"

text \<open>
  \<^verbatim>\<open>drop\<close> on slices in memory: \<^verbatim>\<open>to := make([]T, 0)\<close>, then the loop over the indices of
  \<^verbatim>\<open>from\<close>, which reads \<^verbatim>\<open>from[i]\<close> from memory at each turn and either counts \<open>n\<close> down
  or appends to \<^verbatim>\<open>to\<close>.
\<close>

fun drop_mem_loop ::
  "(nat \<Rightarrow> nat) \<Rightarrow> 'w::len word \<Rightarrow> slice \<Rightarrow> nat list \<Rightarrow> slice \<Rightarrow> 'a::zero memory
     \<Rightarrow> slice \<times> 'a memory" where
  "drop_mem_loop grow n from [] to h = (to, h)"
| "drop_mem_loop grow n from (i # is) to h =
     (let v = arrays h (s_arr from) ! (s_off from + i) in
      if 0 <s n then drop_mem_loop grow (n - 1) from is to h
      else case append_go grow to v h of
             (to', h') \<Rightarrow> drop_mem_loop grow n from is to' h')"

definition drop_mem ::
  "(nat \<Rightarrow> nat) \<Rightarrow> 'w::len word \<Rightarrow> slice \<Rightarrow> 'a::zero memory \<Rightarrow> slice \<times> 'a memory" where
  "drop_mem grow n from h =
     (case make_slice 0 h of
        (to, h') \<Rightarrow> drop_mem_loop grow n from [0 ..< s_len from] to h')"

subsection \<open>Goroutines and unbuffered channels\<close>

text \<open>
  \<^verbatim>\<open>make(chan T)\<close> makes an unbuffered channel: a send and a receive on it happen together,
  as one handoff, and each blocks until the other side is there. \<^verbatim>\<open>close\<close> marks the
  channel closed; a receive on a closed channel does not block and reports \<^verbatim>\<open>ok == false\<close>
  (a \<^verbatim>\<open>range\<close> loop ends); a send on a closed channel and a second \<^verbatim>\<open>close\<close> panic.

  A goroutine is modelled by the point of its code it stands at, with its local variables.
  Channels are numbered. Goroutine 0 is the caller.
  \<^verbatim>\<open>
  func to_chan(in []T) <-chan T {
      out := make(chan T)
      go func() {
          for _, n := range in {
              out <- n
          }
          close(out)
      }()
      return out
  }

  func from_chan(in <-chan T) []T {
      out := make([]T, 0)
      for n := range in {
          out = append(out, n)
      }
      return out
  }

  func mapchanT(f func(T) T, from <-chan T) chan T {
      to := make(chan T)
      go func() {
          for {
              i, e := <-from
              if e == false {
                  close(to)
                  break
              }
              to <- f(i)
          }
      }()
      return to
  }
  \<close>
\<close>

datatype 'a goroutine =
    To_chan nat "'a list"
      \<comment> \<open>\<^verbatim>\<open>to_chan\<close>'s goroutine at the head of its loop: the channel \<^verbatim>\<open>out\<close>, the elements
          of \<^verbatim>\<open>in\<close> not yet sent\<close>
  | Mapchan_recv "'a \<Rightarrow> 'a" nat nat
      \<comment> \<open>\<^verbatim>\<open>mapchanT\<close>'s goroutine at \<^verbatim>\<open>i, e := <-from\<close>: \<^verbatim>\<open>f\<close>, \<^verbatim>\<open>from\<close>, \<^verbatim>\<open>to\<close>\<close>
  | Mapchan_send "'a \<Rightarrow> 'a" nat nat 'a
      \<comment> \<open>the same goroutine at \<^verbatim>\<open>to <- f(i)\<close>, holding \<^verbatim>\<open>i\<close>\<close>
  | Mapchan_close nat
      \<comment> \<open>the same goroutine at \<^verbatim>\<open>close(to)\<close>\<close>
  | From_chan nat "'a list"
      \<comment> \<open>the caller inside \<^verbatim>\<open>from_chan\<close> at \<^verbatim>\<open>for n := range in\<close>: \<^verbatim>\<open>in\<close>, \<^verbatim>\<open>out\<close>\<close>
  | Returned "'a list"
      \<comment> \<open>\<^verbatim>\<open>from_chan\<close> has returned \<^verbatim>\<open>out\<close> to the caller\<close>
  | Exited
      \<comment> \<open>the goroutine's function has returned\<close>

datatype 'a action = Send nat 'a | Recv nat | Close nat | Idle

fun wants :: "'a goroutine \<Rightarrow> 'a action" where
  "wants (To_chan out (n # ns)) = Send out n"
| "wants (To_chan out []) = Close out"
| "wants (Mapchan_recv f from to) = Recv from"
| "wants (Mapchan_send f from to i) = Send to (f i)"
| "wants (Mapchan_close to) = Close to"
| "wants (From_chan in' out) = Recv in'"
| "wants (Returned out) = Idle"
| "wants Exited = Idle"

text \<open>Where a goroutine stands after its send was taken.\<close>

fun sent :: "'a goroutine \<Rightarrow> 'a goroutine" where
  "sent (To_chan out (n # ns)) = To_chan out ns"
| "sent (Mapchan_send f from to i) = Mapchan_recv f from to"
| "sent g = g"

text \<open>
  Where a goroutine stands after its receive: \<open>Some v\<close> is the value \<open>v\<close> with
  \<^verbatim>\<open>ok == true\<close>, \<open>None\<close> is a closed channel.
\<close>

fun received :: "'a option \<Rightarrow> 'a goroutine \<Rightarrow> 'a goroutine" where
  "received (Some i) (Mapchan_recv f from to) = Mapchan_send f from to i"
| "received None (Mapchan_recv f from to) = Mapchan_close to"
| "received (Some n) (From_chan in' out) = From_chan in' (out @ [n])"
| "received None (From_chan in' out) = Returned out"
| "received r g = g"

text \<open>Where a goroutine stands after its \<^verbatim>\<open>close\<close>.\<close>

fun closed_it :: "'a goroutine \<Rightarrow> 'a goroutine" where
  "closed_it (To_chan out []) = Exited"
| "closed_it (Mapchan_close to) = Exited"
| "closed_it g = g"

record 'a system =
  closed :: "nat set"
  goroutines :: "'a goroutine list"
  failed :: "panic option"

text \<open>
  The handoff on an unbuffered channel: goroutine \<open>s\<close> stands at a send on a channel,
  goroutine \<open>r\<close> at a receive on the same channel, and the channel is open. The result
  is the list of the states the handoff leads to: one, or none when it cannot happen.
\<close>

definition handoff :: "nat \<Rightarrow> nat \<Rightarrow> 'a system \<Rightarrow> 'a system list" where
  "handoff s r st =
     (let gs = goroutines st in
      case wants (gs ! s) of
        Send c v \<Rightarrow>
          (case wants (gs ! r) of
             Recv c' \<Rightarrow>
               if s \<noteq> r \<and> c = c' \<and> c \<notin> closed st
               then [st\<lparr>goroutines := gs[s := sent (gs ! s), r := received (Some v) (gs ! r)]\<rparr>]
               else []
           | _ \<Rightarrow> [])
      | _ \<Rightarrow> [])"

text \<open>
  What goroutine \<open>i\<close> can do with no partner: receive from a closed channel, close an
  open channel, or panic (a close of a closed channel, a send on a closed channel).
  Here \<open>i\<close>, like \<open>s\<close> and \<open>r\<close> above, is a position in the list of goroutines;
  \<open>successors\<close> below passes no other number.
\<close>

definition alone :: "nat \<Rightarrow> 'a system \<Rightarrow> 'a system list" where
  "alone i st =
     (let gs = goroutines st in
      case wants (gs ! i) of
        Recv c \<Rightarrow>
          if c \<in> closed st then [st\<lparr>goroutines := gs[i := received None (gs ! i)]\<rparr>] else []
      | Close c \<Rightarrow>
          if c \<in> closed st then [st\<lparr>failed := Some CloseOfClosedChannel\<rparr>]
          else [st\<lparr>closed := insert c (closed st), goroutines := gs[i := closed_it (gs ! i)]\<rparr>]
      | Send c v \<Rightarrow>
          if c \<in> closed st then [st\<lparr>failed := Some SendOnClosedChannel\<rparr>] else []
      | Idle \<Rightarrow> [])"

text \<open>
  Every state one step of the program can lead to, whichever goroutine the scheduler
  picks. A program that has panicked has stopped.
\<close>

definition successors :: "'a system \<Rightarrow> 'a system list" where
  "successors st =
     (if failed st \<noteq> None then []
      else let idx = [0 ..< length (goroutines st)] in
        concat (map (\<lambda>i. alone i st @ concat (map (\<lambda>r. handoff i r st) idx)) idx))"

definition step :: "'a system \<Rightarrow> 'a system \<Rightarrow> bool" where
  "step st st' \<longleftrightarrow> st' \<in> set (successors st)"

text \<open>What the caller has got back from \<^verbatim>\<open>from_chan\<close>, if it has returned.\<close>

definition result :: "'a system \<Rightarrow> 'a list option" where
  "result st =
     (case goroutines st of
        Returned out # _ \<Rightarrow> Some out
      | _ \<Rightarrow> None)"

text \<open>
  \<^verbatim>\<open>from_chan(to_chan(s))\<close>: \<^verbatim>\<open>to_chan\<close> makes channel 0, starts its goroutine and returns;
  the caller enters \<^verbatim>\<open>from_chan\<close> with \<^verbatim>\<open>out\<close> empty.
\<close>

definition from_chan_to_chan :: "'a list \<Rightarrow> 'a system" where
  "from_chan_to_chan s =
     \<lparr>closed = {}, goroutines = [From_chan 0 [], To_chan 0 s], failed = None\<rparr>"

text \<open>
  \<^verbatim>\<open>from_chan(mapchanT(f, to_chan(s)))\<close>: \<^verbatim>\<open>to_chan\<close> makes channel 0, \<^verbatim>\<open>mapchanT\<close> makes
  channel 1, each starts its goroutine and returns; the caller enters \<^verbatim>\<open>from_chan\<close> on
  channel 1.
\<close>

definition from_chan_mapchanT_to_chan :: "('a \<Rightarrow> 'a) \<Rightarrow> 'a list \<Rightarrow> 'a system" where
  "from_chan_mapchanT_to_chan f s =
     \<lparr>closed = {},
      goroutines = [From_chan 1 [], To_chan 0 s, Mapchan_recv f 0 1],
      failed = None\<rparr>"

text \<open>The caller, back from a call, calls \<^verbatim>\<open>from_chan\<close> on channel \<open>c\<close>.\<close>

definition call_from_chan :: "nat \<Rightarrow> 'a system \<Rightarrow> 'a system" where
  "call_from_chan c st = st\<lparr>goroutines := (goroutines st)[0 := From_chan c []]\<rparr>"

text \<open>
  A bound on the steps a system of these goroutines has left, when its stages form a
  chain: an element still to be sent moves twice, and every goroutine ends with one or
  two steps of its own.
\<close>

fun weight :: "'a goroutine \<Rightarrow> nat" where
  "weight (To_chan out ns) = 2 * length ns + 1"
| "weight (Mapchan_recv f from to) = 2"
| "weight (Mapchan_send f from to i) = 3"
| "weight (Mapchan_close to) = 1"
| "weight (From_chan in' out) = 1"
| "weight (Returned out) = 0"
| "weight Exited = 0"

definition steps_left :: "'a system \<Rightarrow> nat" where
  "steps_left st = sum_list (map weight (goroutines st))"

subsection \<open>Parallel map\<close>

text \<open>
  \<^verbatim>\<open>
  func pmapT(f func(T) T, from []T) []T {
      N := len(from)
      to := make([]T, N)
      var wg sync.WaitGroup
      wg.Add(N)
      for i, v := range from {
          go func(i int, v T) {
              defer wg.Done()
              to[i] = f(v)
          }(i, v)
      }
      wg.Wait()
      return to
  }
  \<close>
  The caller stands in its loop before index \<open>i\<close>, at \<^verbatim>\<open>wg.Wait()\<close>, or has returned. A
  worker stands before its body with its arguments \<open>i\<close> and \<open>v\<close>, before its deferred
  \<^verbatim>\<open>wg.Done()\<close>, or has finished. The workers write distinct elements of \<^verbatim>\<open>to\<close>, so a write
  is one step. The counter of the wait group is an integer: \<^verbatim>\<open>Wait\<close> blocks until it is
  zero, and \<^verbatim>\<open>Done\<close> panics when it would go below zero.
\<close>

datatype 'a pmap_caller = Loop nat | Wait | Return "'a list"

datatype 'a worker = Started nat 'a | Deferred | Finished

record 'a pmap =
  caller :: "'a pmap_caller"
  to_slice :: "'a list"
  wg :: int
  workers :: "'a worker list"
  panicked :: "panic option"

definition pmapT_start :: "'a::zero list \<Rightarrow> 'a pmap" where
  "pmapT_start from =
     (let N = length from in
      \<lparr>caller = Loop 0, to_slice = replicate N 0, wg = int N, workers = [],
       panicked = None\<rparr>)"

definition caller_step :: "'a list \<Rightarrow> 'a pmap \<Rightarrow> 'a pmap list" where
  "caller_step from st =
     (case caller st of
        Loop i \<Rightarrow>
          if i < length from
          then [st\<lparr>caller := Loop (Suc i), workers := workers st @ [Started i (from ! i)]\<rparr>]
          else [st\<lparr>caller := Wait\<rparr>]
      | Wait \<Rightarrow> if wg st = 0 then [st\<lparr>caller := Return (to_slice st)\<rparr>] else []
      | Return r \<Rightarrow> [])"

definition worker_step :: "('a \<Rightarrow> 'a) \<Rightarrow> nat \<Rightarrow> 'a pmap \<Rightarrow> 'a pmap list" where
  "worker_step f j st =
     (case workers st ! j of
        Started i v \<Rightarrow>
          (case store (to_slice st) i (f v) of
             Inl e \<Rightarrow> [st\<lparr>panicked := Some e\<rparr>]
           | Inr to' \<Rightarrow> [st\<lparr>to_slice := to', workers := (workers st)[j := Deferred]\<rparr>])
      | Deferred \<Rightarrow>
          if wg st - 1 < 0 then [st\<lparr>panicked := Some NegativeWaitGroupCounter\<rparr>]
          else [st\<lparr>wg := wg st - 1, workers := (workers st)[j := Finished]\<rparr>]
      | Finished \<Rightarrow> [])"

text \<open>
  Every state one step of \<^verbatim>\<open>pmapT\<close> can lead to: the scheduler runs the caller or any one
  of the workers started so far.
\<close>

definition pmap_successors :: "('a \<Rightarrow> 'a) \<Rightarrow> 'a list \<Rightarrow> 'a pmap \<Rightarrow> 'a pmap list" where
  "pmap_successors f from st =
     (if panicked st \<noteq> None then []
      else caller_step from st @
           concat (map (\<lambda>j. worker_step f j st) [0 ..< length (workers st)]))"

definition pmap_step :: "('a \<Rightarrow> 'a) \<Rightarrow> 'a list \<Rightarrow> 'a pmap \<Rightarrow> 'a pmap \<Rightarrow> bool" where
  "pmap_step f from st st' \<longleftrightarrow> st' \<in> set (pmap_successors f from st)"

definition pmap_result :: "'a pmap \<Rightarrow> 'a list option" where
  "pmap_result st = (case caller st of Return r \<Rightarrow> Some r | _ \<Rightarrow> None)"

text \<open>A bound on the steps \<^verbatim>\<open>pmapT\<close> has left: three for each index not yet reached.\<close>

fun worker_weight :: "'a worker \<Rightarrow> nat" where
  "worker_weight (Started i v) = 2"
| "worker_weight Deferred = 1"
| "worker_weight Finished = 0"

fun caller_weight :: "nat \<Rightarrow> 'a pmap_caller \<Rightarrow> nat" where
  "caller_weight N (Loop i) = 3 * (N - i) + 2"
| "caller_weight N Wait = 1"
| "caller_weight N (Return r) = 0"

definition pmap_steps_left :: "nat \<Rightarrow> 'a pmap \<Rightarrow> nat" where
  "pmap_steps_left N st =
     caller_weight N (caller st) + sum_list (map worker_weight (workers st))"

subsection \<open>Programs that return under every schedule\<close>

text \<open>
  A concurrent program, given by its step relation \<open>nxt\<close> and its first state \<open>init\<close>,
  returns \<open>r\<close> under every schedule when, whatever the scheduler does: no state it reaches
  has panicked (\<open>ok\<close>); a state where the caller has not returned has a next step (no
  deadlock); a state where the caller has returned holds \<open>r\<close> as the value returned; and no
  run goes on for ever.
\<close>

definition returns_always ::
  "('s \<Rightarrow> 's \<Rightarrow> bool) \<Rightarrow> ('s \<Rightarrow> bool) \<Rightarrow> ('s \<Rightarrow> 'r option) \<Rightarrow> 's \<Rightarrow> 'r \<Rightarrow> bool" where
  "returns_always nxt ok res init r \<longleftrightarrow>
     (\<forall>st. nxt\<^sup>*\<^sup>* init st \<longrightarrow>
        ok st \<and> (case res st of Some r' \<Rightarrow> r' = r | None \<Rightarrow> \<exists>st'. nxt st st'))
     \<and> wfp (\<lambda>st' st. nxt\<^sup>*\<^sup>* init st \<and> nxt st st')"

subsection \<open>Invariants of the channel programs\<close>

text \<open>
  The states \<^verbatim>\<open>from_chan(to_chan(s))\<close> goes through: the caller holds a prefix of \<open>s\<close> and
  the producer the rest; the producer has closed the channel; the caller has returned.
\<close>

definition drain :: "'a list \<Rightarrow> 'a system \<Rightarrow> bool" where
  "drain s st \<longleftrightarrow>
     (\<exists>out ns. s = out @ ns \<and>
        st = \<lparr>closed = {}, goroutines = [From_chan 0 out, To_chan 0 ns], failed = None\<rparr>)
   \<or> st = \<lparr>closed = {0}, goroutines = [From_chan 0 s, Exited], failed = None\<rparr>
   \<or> st = \<lparr>closed = {0}, goroutines = [Returned s, Exited], failed = None\<rparr>"

text \<open>
  The states \<^verbatim>\<open>from_chan(mapchanT(f, to_chan(s)))\<close> goes through. The caller holds the
  images of a prefix of \<open>s\<close>; the stage holds at most one element, the next one; the
  producer holds the rest.
\<close>

inductive relay :: "('a \<Rightarrow> 'a) \<Rightarrow> 'a list \<Rightarrow> 'a system \<Rightarrow> bool" for f s where
  receiving:
    "s = pre @ ns \<Longrightarrow>
     relay f s \<lparr>closed = {},
       goroutines = [From_chan (Suc 0) (map f pre), To_chan 0 ns, Mapchan_recv f 0 (Suc 0)],
       failed = None\<rparr>"
| holding:
    "s = pre @ i # ns \<Longrightarrow>
     relay f s \<lparr>closed = {},
       goroutines = [From_chan (Suc 0) (map f pre), To_chan 0 ns, Mapchan_send f 0 (Suc 0) i],
       failed = None\<rparr>"
| holding_last:
    "s = pre @ [i] \<Longrightarrow>
     relay f s \<lparr>closed = {0},
       goroutines = [From_chan (Suc 0) (map f pre), Exited, Mapchan_send f 0 (Suc 0) i],
       failed = None\<rparr>"
| drained:
    "relay f s \<lparr>closed = {0},
       goroutines = [From_chan (Suc 0) (map f s), Exited, Mapchan_recv f 0 (Suc 0)],
       failed = None\<rparr>"
| closing:
    "relay f s \<lparr>closed = {0},
       goroutines = [From_chan (Suc 0) (map f s), Exited, Mapchan_close (Suc 0)],
       failed = None\<rparr>"
| all_closed:
    "relay f s \<lparr>closed = {Suc 0, 0},
       goroutines = [From_chan (Suc 0) (map f s), Exited, Exited],
       failed = None\<rparr>"
| returned:
    "relay f s \<lparr>closed = {Suc 0, 0},
       goroutines = [Returned (map f s), Exited, Exited],
       failed = None\<rparr>"

subsection \<open>Invariant of the parallel map\<close>

text \<open>
  A worker that has not run its \<^verbatim>\<open>wg.Done()\<close> is owed to the wait group. The caller in its
  loop before index \<open>i\<close> has started \<open>i\<close> workers. The worker at position \<open>j\<close> was
  started with \<open>i = j\<close> and \<open>v = s ! j\<close>, and once it has written, \<open>to ! j = f (s ! j)\<close>.
  The counter is the number of workers not yet started plus those owed.
\<close>

fun owes :: "'a worker \<Rightarrow> nat" where
  "owes (Started i v) = 1"
| "owes Deferred = 1"
| "owes Finished = 0"

fun caller_ok :: "('a \<Rightarrow> 'a) \<Rightarrow> 'a list \<Rightarrow> nat \<Rightarrow> 'a pmap_caller \<Rightarrow> bool" where
  "caller_ok f s n (Loop i) \<longleftrightarrow> i = n"
| "caller_ok f s n Wait \<longleftrightarrow> n = length s"
| "caller_ok f s n (Return r) \<longleftrightarrow> n = length s \<and> r = map f s"

fun worker_ok :: "('a \<Rightarrow> 'a) \<Rightarrow> 'a list \<Rightarrow> 'a list \<Rightarrow> nat \<Rightarrow> 'a worker \<Rightarrow> bool" where
  "worker_ok f s to j (Started i v) \<longleftrightarrow> i = j \<and> v = s ! j"
| "worker_ok f s to j Deferred \<longleftrightarrow> to ! j = f (s ! j)"
| "worker_ok f s to j Finished \<longleftrightarrow> to ! j = f (s ! j)"

definition pmap_inv :: "('a \<Rightarrow> 'a) \<Rightarrow> 'a list \<Rightarrow> 'a pmap \<Rightarrow> bool" where
  "pmap_inv f s st \<longleftrightarrow>
     panicked st = None
   \<and> length (to_slice st) = length s
   \<and> length (workers st) \<le> length s
   \<and> caller_ok f s (length (workers st)) (caller st)
   \<and> (\<forall>j < length (workers st). worker_ok f s (to_slice st) j (workers st ! j))
   \<and> wg st = int (length s - length (workers st)) + int (sum_list (map owes (workers st)))"

subsection \<open>Invariant of the loop of \<^verbatim>\<open>drop\<close> in memory\<close>

text \<open>
  Since the call began, when \<open>b\<close> was the number of the next allocation and the memory
  was \<open>h0\<close>: the slice \<^verbatim>\<open>to\<close> lies in an array allocated since, and no array allocated
  before has changed.
\<close>

definition fresh_since :: "nat \<Rightarrow> 'a memory \<Rightarrow> 'a memory \<Rightarrow> slice \<Rightarrow> bool" where
  "fresh_since b h0 h to \<longleftrightarrow>
     valid h to \<and> b \<le> s_arr to \<and> b \<le> next_array h
     \<and> (\<forall>a < b. arrays h a = arrays h0 a)"

section \<open>Properties\<close>

subsection \<open>The loops of the slice operations\<close>

lemma sint_pred:
  fixes n :: "'w::len word"
  assumes "0 <s n"
  shows "sint (n - 1) = sint n - 1"
proof -
  have pos: "0 < sint n"
    using assms by (simp add: word_sless_alt)
  have hi: "sint n < 2 ^ (LENGTH('w) - 1)"
    by (rule sint_lt)
  have "LENGTH('w) \<noteq> 1"
    using pos hi by auto
  then have one: "sint (1 :: 'w word) = 1"
    by simp
  have "sint (n - 1) = signed_take_bit (LENGTH('w) - 1) (sint n - sint (1 :: 'w word))"
    by (rule sint_word_ariths)
  also have "\<dots> = signed_take_bit (LENGTH('w) - 1) (sint n - 1)"
    by (simp only: one)
  also have "\<dots> = sint n - 1"
    by (rule signed_take_bit_int_eq_self) (use pos hi in auto)
  finally show ?thesis .
qed

lemma sle_zero: "(n::'w::len word) \<le>s 0 \<longleftrightarrow> sint n \<le> 0"
  by (simp add: word_sle_eq)

lemma sless_zero: "0 <s (n::'w::len word) \<longleftrightarrow> 0 < sint n"
  by (simp add: word_sless_alt)

lemma not_sle_zero: "\<not> (n::'w::len word) \<le>s 0 \<Longrightarrow> 0 <s n"
  by (simp add: word_sle_eq word_sless_alt)

lemma take_loop_eq: "take_loop n xs to = to @ take (nat (sint n)) xs"
proof (induction xs arbitrary: n to)
  case Nil
  show ?case by simp
next
  case (Cons v vs)
  show ?case
  proof (cases "n \<le>s 0")
    case True
    then show ?thesis by (simp add: sle_zero)
  next
    case False
    then have pos: "0 <s n" by (rule not_sle_zero)
    then have "nat (sint n) = Suc (nat (sint (n - 1)))"
      by (simp add: sint_pred sless_zero)
    with False show ?thesis
      by (simp add: Cons.IH)
  qed
qed

lemma drop_loop_eq: "drop_loop n xs to = to @ drop (nat (sint n)) xs"
proof (induction xs arbitrary: n to)
  case Nil
  show ?case by simp
next
  case (Cons v vs)
  show ?case
  proof (cases "0 <s n")
    case True
    then have "nat (sint n) = Suc (nat (sint (n - 1)))"
      by (simp add: sint_pred sless_zero)
    with True show ?thesis
      by (simp add: Cons.IH)
  next
    case False
    then have "nat (sint n) = 0"
      by (simp add: sless_zero)
    with False show ?thesis
      by (simp add: Cons.IH)
  qed
qed

lemma filterT_loop_eq: "filterT_loop f xs to = to @ filter f xs"
  by (induction xs arbitrary: to) simp_all

lemma removeT_loop_eq: "removeT_loop f xs to = to @ filter (\<lambda>x. \<not> f x) xs"
  by (induction xs arbitrary: to) simp_all

lemma mapT_loop_eq:
  "i + length vs \<le> length to \<Longrightarrow>
   mapT_loop f vs i to = Inr (take i to @ map f vs @ drop (i + length vs) to)"
proof (induction vs arbitrary: i to)
  case Nil
  then show ?case by simp
next
  case (Cons v vs)
  then have "i < length to" by simp
  then have "take (Suc i) (to[i := f v]) = take i to @ [f v]"
    by (simp add: take_Suc_conv_app_nth)
  with Cons show ?case
    by (simp add: store_def)
qed

lemma mapT_eq: "mapT f xs = Inr (map f xs)"
  by (simp add: mapT_def mapT_loop_eq)

lemma foldlT_eq: "foldlT f z xs = foldl f z xs"
proof (induction xs arbitrary: z)
  case Nil
  show ?case by (simp add: foldlT.simps)
next
  case (Cons x xs)
  then show ?case by (subst foldlT.simps) simp
qed

lemma foldrT_eq: "foldrT f z xs = foldr f xs z"
proof (induction xs)
  case Nil
  show ?case by (simp add: foldrT.simps)
next
  case (Cons x xs)
  then show ?case by (subst foldrT.simps) simp
qed

lemma foldlT_depth_eq:
  "foldlT_depth d f z xs = (if length xs \<le> d then Some (foldl f z xs) else None)"
proof (induction xs arbitrary: d z)
  case Nil
  show ?case by (simp add: foldlT_depth.simps)
next
  case (Cons x xs)
  show ?case
    by (cases d) (simp_all add: Cons.IH foldlT_depth.simps [of _ _ _ "x # xs"])
qed

lemma foldrT_depth_eq:
  "foldrT_depth d f z xs = (if length xs \<le> d then Some (foldr f xs z) else None)"
proof (induction xs arbitrary: d)
  case Nil
  show ?case by (simp add: foldrT_depth.simps)
next
  case (Cons x xs)
  show ?case
    by (cases d) (simp_all add: Cons.IH foldrT_depth.simps [of _ _ _ "x # xs"])
qed


text \<open>
  Claim C3. \<^verbatim>\<open>foldlT(f, z, s)\<close> is the left fold of \<open>s\<close> from \<open>z\<close>, the accumulator being the
  first argument of \<open>f\<close>: on the empty slice it is \<open>z\<close>; the first element is folded into
  the accumulator before the rest is looked at; the last application of \<open>f\<close> is to the
  fold of all elements but the last, and the last element. It is HOL's \<open>foldl\<close>. With the
  subtraction of \<^verbatim>\<open>main\<close>, from 0 over \<open>[1, 2, 3, 4, 5]\<close>, it is \<open>-15\<close>.
\<close>

theorem foldlT_left_fold:
  "foldlT f z [] = z
   \<and> foldlT f z (x # s) = foldlT f (f z x) s
   \<and> foldlT f z (s @ [x]) = f (foldlT f z s) x
   \<and> foldlT f z s = foldl f z s
   \<and> foldlT sub 0 [1, 2, 3, 4, 5] = - 15
   \<and> sint (foldlT sub 0 [1, 2, 3, 4, 5]) = - 15"
  by (simp add: foldlT_eq sub_def)

text \<open>The left fold of \<open>[1, 2, 3]\<close> and of \<open>[2, 3]\<close> from 10, by subtraction.\<close>

theorem foldlT_left_fold_witness:
  "foldlT sub 10 [] = 10
   \<and> foldlT sub 10 [1, 2, 3] = foldlT sub (sub 10 1) [2, 3]
   \<and> foldlT sub 10 ([2, 3] @ [1]) = sub (foldlT sub 10 [2, 3]) 1
   \<and> foldlT sub 10 [2, 3] = 5"
  using foldlT_left_fold [of sub 10 1 "[2, 3]"]
  by (simp add: sub_def)

text \<open>
  Claim C4. \<^verbatim>\<open>foldrT(f, z, s)\<close> is the right fold of \<open>s\<close> onto \<open>z\<close>, the element being the
  first argument of \<open>f\<close>: on the empty slice it is \<open>z\<close>, and on a slice with first element
  \<open>x\<close> it is \<open>f\<close> of \<open>x\<close> and the fold of the rest. It is HOL's \<open>foldr\<close>. With the
  subtraction of \<^verbatim>\<open>main\<close>, onto 0 over \<open>[1, 2, 3, 4, 5]\<close>, it is \<open>3\<close>.
\<close>

theorem foldrT_right_fold:
  "foldrT f z [] = z
   \<and> foldrT f z (x # s) = f x (foldrT f z s)
   \<and> foldrT f z s = foldr f s z
   \<and> foldrT sub 0 [1, 2, 3, 4, 5] = 3"
  by (simp add: foldrT_eq sub_def)

text \<open>The right fold of \<open>[1, 2, 3]\<close> and of \<open>[2, 3]\<close> onto 10, by subtraction.\<close>

theorem foldrT_right_fold_witness:
  "foldrT sub 10 [] = 10
   \<and> foldrT sub 10 [1, 2, 3] = sub 1 (foldrT sub 10 [2, 3])
   \<and> foldrT sub 10 [2, 3] = 9"
  using foldrT_right_fold [of sub 10 1 "[2, 3]"]
  by (simp add: sub_def)

text \<open>
  Claim C5. \<^verbatim>\<open>filterT(p, s)\<close> and \<^verbatim>\<open>removeT(p, s)\<close> partition \<open>s\<close>: \<^verbatim>\<open>removeT\<close> is \<^verbatim>\<open>filterT\<close>
  of the negated predicate; the two are the elements of \<open>s\<close> that satisfy \<open>p\<close> and those
  that do not, each in the order of \<open>s\<close>; \<open>s\<close> is an interleaving of the two that keeps
  the order of each; no element is in both, every element of \<open>s\<close> is in one; and the two
  lengths add up to the length of \<open>s\<close>.
\<close>

theorem filterT_removeT_partition:
  "removeT p s = filterT (\<lambda>x. \<not> p x) s
   \<and> filterT p s = filter p s
   \<and> removeT p s = filter (\<lambda>x. \<not> p x) s
   \<and> s \<in> shuffles (filterT p s) (removeT p s)
   \<and> set (filterT p s) \<inter> set (removeT p s) = {}
   \<and> set (filterT p s) \<union> set (removeT p s) = set s
   \<and> length (filterT p s) + length (removeT p s) = length s"
  by (auto simp: filterT_def removeT_def filterT_loop_eq removeT_loop_eq
      partition_in_shuffles sum_length_filter_compl)

text \<open>The partition of \<open>[1, 5, 2, 7]\<close> by \<open>i < 3\<close>.\<close>

theorem filterT_removeT_partition_witness:
  "removeT (\<lambda>i. i < 3) [1, 5, 2, 7 :: T] = filterT (\<lambda>i. \<not> i < 3) [1, 5, 2, 7]
   \<and> filterT (\<lambda>i. i < 3) [1, 5, 2, 7 :: T] = [1, 2]
   \<and> removeT (\<lambda>i. i < 3) [1, 5, 2, 7 :: T] = [5, 7]
   \<and> [1, 5, 2, 7 :: T] \<in> shuffles [1, 2] [5, 7]"
  using filterT_removeT_partition [of "\<lambda>i. i < 3" "[1, 5, 2, 7 :: T]"]
  by (simp add: filterT_def removeT_def)

lemma take_go_eq: "take_go n s = take (nat (sint n)) s"
  by (simp add: take_go_def take_loop_eq)

lemma drop_go_eq: "drop_go n s = drop (nat (sint n)) s"
  by (simp add: drop_go_def drop_loop_eq)

text \<open>
  Claim C6. For a counter \<open>n\<close> with \<open>0 \<le> n \<le> len(s)\<close>, read as a signed machine integer,
  \<^verbatim>\<open>take(n, s)\<close> followed by \<^verbatim>\<open>drop(n, s)\<close> is \<open>s\<close>.
\<close>

theorem take_go_append_drop_go:
  "0 \<le> sint n \<Longrightarrow> sint n \<le> int (length s) \<Longrightarrow> take_go n s @ drop_go n s = s"
  by (simp add: take_go_eq drop_go_eq)

text \<open>\<open>n = 3\<close> on \<open>[1, 2, 3, 4, 5]\<close>.\<close>

theorem take_go_append_drop_go_witness:
  "0 \<le> sint (3 :: 64 word) \<and> sint (3 :: 64 word) \<le> int (length [1, 2, 3, 4, 5 :: T])
   \<and> take_go (3 :: 64 word) [1, 2, 3, 4, 5 :: T] = [1, 2, 3]
   \<and> drop_go (3 :: 64 word) [1, 2, 3, 4, 5 :: T] = [4, 5]
   \<and> take_go (3 :: 64 word) [1, 2, 3, 4, 5 :: T] @ drop_go (3 :: 64 word) [1, 2, 3, 4, 5 :: T]
       = [1, 2, 3, 4, 5]"
  using take_go_append_drop_go [of "3 :: 64 word" "[1, 2, 3, 4, 5 :: T]"]
  by (simp add: take_go_def drop_go_def word_sle_eq word_sless_alt)

text \<open>The loop of \<^verbatim>\<open>drop\<close> in memory, and what \<^verbatim>\<open>append\<close> keeps.\<close>

lemma take_drop_update:
  assumes "m + k < length xs"
  shows "take (Suc k) (drop m (xs[m + k := v])) = take k (drop m xs) @ [v]"
proof -
  have "drop m (xs[m + k := v]) = (drop m xs)[k := v]"
    by (simp add: drop_update_swap)
  moreover have "k < length (drop m xs)"
    using assms by simp
  ultimately show ?thesis
    by (simp add: take_Suc_conv_app_nth)
qed

lemma append_go_fresh:
  assumes "fresh_since b h0 h to" and "append_go grow to v h = (to', h')"
  shows "fresh_since b h0 h' to' \<and> elems h' to' = elems h to @ [v]"
proof (cases "s_len to < s_cap to")
  case True
  with assms(2) have to': "to' = to\<lparr>s_len := Suc (s_len to)\<rparr>"
    and h': "h' = h\<lparr>arrays := (arrays h)(s_arr to := (arrays h (s_arr to))[s_off to + s_len to := v])\<rparr>"
    by (simp_all add: append_go_def)
  from assms(1) True have lt: "s_off to + s_len to < length (arrays h (s_arr to))"
    by (simp add: fresh_since_def valid_def)
  have "fresh_since b h0 h' to'"
    using assms(1) True unfolding fresh_since_def valid_def to' h' by auto
  moreover have "elems h' to' = elems h to @ [v]"
    using lt unfolding elems_def to' h'
    by (simp add: take_drop_update)
  ultimately show ?thesis ..
next
  case False
  define c where "c = max (Suc (s_len to)) (grow (s_cap to))"
  from False assms(2) have to': "to' = \<lparr>s_arr = next_array h, s_off = 0, s_len = Suc (s_len to), s_cap = c\<rparr>"
    and h': "h' = h\<lparr>arrays := (arrays h)(next_array h := elems h to @ v # replicate (c - Suc (s_len to)) 0),
           next_array := Suc (next_array h)\<rparr>"
    by (simp_all add: append_go_def Let_def c_def)
  from assms(1) have len: "length (elems h to) = s_len to"
    by (auto simp: fresh_since_def valid_def elems_def)
  have "Suc (s_len to) \<le> c" by (simp add: c_def)
  with len have "fresh_since b h0 h' to'"
    using assms(1) unfolding fresh_since_def valid_def to' h' by auto
  moreover have "elems h' to' = elems h to @ [v]"
    using len unfolding to' h' by (simp add: elems_def)
  ultimately show ?thesis ..
qed

lemma drop_mem_loop_fresh:
  assumes "fresh_since b h0 h to" and "s_arr from < b"
    and "drop_mem_loop grow n from is to h = (to', h')"
  shows "fresh_since b h0 h' to'
    \<and> elems h' to' = drop_loop n (map (\<lambda>i. arrays h0 (s_arr from) ! (s_off from + i)) is) (elems h to)"
  using assms
proof (induction "is" arbitrary: n to h)
  case Nil
  then show ?case by simp
next
  case (Cons i "is")
  from Cons.prems(1,2) have read: "arrays h (s_arr from) = arrays h0 (s_arr from)"
    by (simp add: fresh_since_def)
  show ?case
  proof (cases "0 <s n")
    case True
    with Cons.prems(3) have "drop_mem_loop grow (n - 1) from is to h = (to', h')"
      by simp
    from Cons.IH [OF Cons.prems(1,2) this] True show ?thesis
      by simp
  next
    case False
    obtain to1 h1 where app: "append_go grow to (arrays h (s_arr from) ! (s_off from + i)) h = (to1, h1)"
      by (cases "append_go grow to (arrays h (s_arr from) ! (s_off from + i)) h")
    with False Cons.prems(3) have loop: "drop_mem_loop grow n from is to1 h1 = (to', h')"
      by simp
    from append_go_fresh [OF Cons.prems(1) app]
    have fresh1: "fresh_since b h0 h1 to1"
      and el1: "elems h1 to1 = elems h to @ [arrays h (s_arr from) ! (s_off from + i)]"
      by simp_all
    from Cons.IH [OF fresh1 Cons.prems(2) loop] False el1 read show ?thesis
      by simp
  qed
qed

lemma elems_by_index:
  assumes "valid h s"
  shows "map (\<lambda>i. arrays h (s_arr s) ! (s_off s + i)) [0 ..< s_len s] = elems h s"
  using assms by (auto simp: valid_def elems_def intro!: nth_equalityI)

lemma drop_mem_copy:
  assumes ok: "valid h from" and run: "drop_mem grow n from h = (to, h')"
  shows "elems h' to = drop_go n (elems h from)"
    and "valid h' to"
    and "next_array h \<le> s_arr to"
    and "s_arr to \<noteq> s_arr from"
    and "\<forall>a < next_array h. arrays h' a = arrays h a"
    and "elems h' from = elems h from"
proof -
  let ?to0 = "\<lparr>s_arr = next_array h, s_off = 0, s_len = 0, s_cap = 0\<rparr>"
  let ?h0 = "h\<lparr>arrays := (arrays h)(next_array h := []), next_array := Suc (next_array h)\<rparr>"
  from run have loop: "drop_mem_loop grow n from [0 ..< s_len from] ?to0 ?h0 = (to, h')"
    by (simp add: drop_mem_def make_slice_def)
  have start: "fresh_since (next_array h) h ?h0 ?to0"
    by (simp add: fresh_since_def valid_def)
  from ok have below: "s_arr from < next_array h"
    by (simp add: valid_def)
  from drop_mem_loop_fresh [OF start below loop] elems_by_index [OF ok]
  have fresh: "fresh_since (next_array h) h h' to"
    and el: "elems h' to = drop_loop n (elems h from) (elems ?h0 ?to0)"
    by simp_all
  from el show "elems h' to = drop_go n (elems h from)"
    by (simp add: drop_go_def elems_def)
  from fresh show "valid h' to" "next_array h \<le> s_arr to"
    "\<forall>a < next_array h. arrays h' a = arrays h a"
    by (simp_all add: fresh_since_def)
  with below show "s_arr to \<noteq> s_arr from" "elems h' from = elems h from"
    by (auto simp: elems_def)
qed


lemma write_elem_elsewhere:
  assumes "write_elem h s i x = Inr h'" and "s_arr s \<noteq> s_arr s'"
  shows "elems h' s' = elems h s'"
  using assms by (auto simp: write_elem_def elems_def split: if_splits)

text \<open>
  Claim C7. \<^verbatim>\<open>take(n, s)\<close> is the first \<open>min(n, len(s))\<close> elements of \<open>s\<close>, in order, and is
  empty when \<open>n \<le> 0\<close>; \<^verbatim>\<open>drop(n, s)\<close> is \<open>s\<close> without its first \<open>n\<close> elements, all of \<open>s\<close>
  when \<open>n \<le> 0\<close> and empty when \<open>n \<ge> len(s)\<close>. (A negative \<open>n\<close> gives \<open>nat (sint n) = 0\<close>.)
  What \<^verbatim>\<open>drop\<close> returns is a copy: run in memory on a slice \<^verbatim>\<open>from\<close>, it returns a slice
  \<^verbatim>\<open>to\<close> whose elements are those of \<^verbatim>\<open>drop\<close> on the elements of \<^verbatim>\<open>from\<close> (all of them when
  \<open>n \<le> 0\<close>), in an array allocated during the call and so not the array of \<^verbatim>\<open>from\<close>; no
  array that existed before the call has changed, \<^verbatim>\<open>from\<close> shows the elements it showed,
  and a later write through \<^verbatim>\<open>to\<close> does not change them. This holds for every growth
  policy of \<^verbatim>\<open>append\<close>.
\<close>

theorem take_go_drop_go_bounds:
  "take_go n s = take (min (nat (sint n)) (length s)) s
   \<and> length (take_go n s) = min (nat (sint n)) (length s)
   \<and> (sint n \<le> 0 \<longrightarrow> take_go n s = [])
   \<and> drop_go n s = drop (nat (sint n)) s
   \<and> (sint n \<le> 0 \<longrightarrow> drop_go n s = s)
   \<and> (int (length s) \<le> sint n \<longrightarrow> drop_go n s = [])
   \<and> (valid h from \<and> drop_mem grow n from h = (to, h') \<longrightarrow>
        elems h' to = drop_go n (elems h from)
        \<and> (sint n \<le> 0 \<longrightarrow> elems h' to = elems h from)
        \<and> valid h' to
        \<and> next_array h \<le> s_arr to
        \<and> s_arr to \<noteq> s_arr from
        \<and> (\<forall>a < next_array h. arrays h' a = arrays h a)
        \<and> elems h' from = elems h from
        \<and> (\<forall>i x h''. write_elem h' to i x = Inr h'' \<longrightarrow> elems h'' from = elems h from))"
proof -
  have mem: "elems h' to = drop_go n (elems h from)
      \<and> (sint n \<le> 0 \<longrightarrow> elems h' to = elems h from)
      \<and> valid h' to
      \<and> next_array h \<le> s_arr to
      \<and> s_arr to \<noteq> s_arr from
      \<and> (\<forall>a < next_array h. arrays h' a = arrays h a)
      \<and> elems h' from = elems h from
      \<and> (\<forall>i x h''. write_elem h' to i x = Inr h'' \<longrightarrow> elems h'' from = elems h from)"
    if ok: "valid h from" and run: "drop_mem grow n from h = (to, h')"
  proof -
    note copy = drop_mem_copy [OF ok run]
    have "elems h'' from = elems h from" if "write_elem h' to i x = Inr h''" for i x h''
      using write_elem_elsewhere [OF that copy(4)] copy(6) by simp
    with copy show ?thesis
      by (simp add: drop_go_eq)
  qed
  then show ?thesis
    by (auto simp: take_go_eq drop_go_eq min_def)
qed

text \<open>
  \<open>n = 7\<close>, \<open>n = 2\<close> and \<open>n = -1\<close> on \<open>[1, 2, 3]\<close>; and \<^verbatim>\<open>drop(-1, from)\<close> in memory, where
  \<^verbatim>\<open>from\<close> shows \<open>[1, 2, 3]\<close> inside the array 0, \<open>[9, 1, 2, 3, 9]\<close>, and \<^verbatim>\<open>append\<close> doubles
  the capacity: the result is the slice of length 3 of the array 4 and shows \<open>[1, 2, 3]\<close>,
  and \<^verbatim>\<open>from\<close> still shows \<open>[1, 2, 3]\<close>.
\<close>

theorem take_go_drop_go_bounds_witness:
  "take_go (7 :: 64 word) [1, 2, 3 :: T] = [1, 2, 3]
   \<and> take_go (2 :: 64 word) [1, 2, 3 :: T] = [1, 2]
   \<and> sint (- 1 :: 64 word) \<le> 0
   \<and> take_go (- 1 :: 64 word) [1, 2, 3 :: T] = []
   \<and> drop_go (- 1 :: 64 word) [1, 2, 3 :: T] = [1, 2, 3]
   \<and> int (length [1, 2, 3 :: T]) \<le> sint (7 :: 64 word)
   \<and> drop_go (7 :: 64 word) [1, 2, 3 :: T] = []
   \<and> valid \<lparr>arrays = (\<lambda>a. if a = 0 then [9, 1, 2, 3, 9 :: T] else []), next_array = 1\<rparr>
     \<lparr>s_arr = 0, s_off = 1, s_len = 3, s_cap = 4\<rparr>
   \<and> fst (drop_mem (\<lambda>c. 2 * c) (- 1 :: 64 word) \<lparr>s_arr = 0, s_off = 1, s_len = 3, s_cap = 4\<rparr>
        \<lparr>arrays = (\<lambda>a. if a = 0 then [9, 1, 2, 3, 9 :: T] else []), next_array = 1\<rparr>)
      = \<lparr>s_arr = 4, s_off = 0, s_len = 3, s_cap = 4\<rparr>
   \<and> elems (snd (drop_mem (\<lambda>c. 2 * c) (- 1 :: 64 word)
          \<lparr>s_arr = 0, s_off = 1, s_len = 3, s_cap = 4\<rparr>
          \<lparr>arrays = (\<lambda>a. if a = 0 then [9, 1, 2, 3, 9 :: T] else []), next_array = 1\<rparr>))
        \<lparr>s_arr = 4, s_off = 0, s_len = 3, s_cap = 4\<rparr> = [1, 2, 3]
   \<and> elems (snd (drop_mem (\<lambda>c. 2 * c) (- 1 :: 64 word)
          \<lparr>s_arr = 0, s_off = 1, s_len = 3, s_cap = 4\<rparr>
          \<lparr>arrays = (\<lambda>a. if a = 0 then [9, 1, 2, 3, 9 :: T] else []), next_array = 1\<rparr>))
        \<lparr>s_arr = 0, s_off = 1, s_len = 3, s_cap = 4\<rparr> = [1, 2, 3]"
proof -
  let ?h = "\<lparr>arrays = (\<lambda>a. if a = 0 then [9, 1, 2, 3, 9 :: T] else []), next_array = 1\<rparr>"
  let ?from = "\<lparr>s_arr = 0, s_off = 1, s_len = 3, s_cap = 4\<rparr>"
  let ?run = "drop_mem (\<lambda>c. 2 * c) (- 1 :: 64 word) ?from ?h"
  have ok: "valid ?h ?from"
    by (simp add: valid_def)
  have neg: "sint (- 1 :: 64 word) \<le> 0"
    by simp
  have el: "elems ?h ?from = [1, 2, 3]"
    by (simp add: elems_def)
  have idx: "[0 ..< 3] = [0, 1, 2]"
    by (simp add: upt_rec)
  have to: "fst ?run = \<lparr>s_arr = 4, s_off = 0, s_len = 3, s_cap = 4\<rparr>"
    by (simp add: drop_mem_def make_slice_def idx append_go_def word_sless_alt elems_def)
  have run: "?run = (fst ?run, snd ?run)"
    by simp
  from take_go_drop_go_bounds [of "- 1 :: 64 word" "[1, 2, 3 :: T]" ?h ?from "\<lambda>c. 2 * c"
      "fst ?run" "snd ?run"] ok run neg
  have mem: "elems (snd ?run) (fst ?run) = elems ?h ?from
      \<and> elems (snd ?run) ?from = elems ?h ?from"
    and neg_n: "take_go (- 1 :: 64 word) [1, 2, 3 :: T] = []
      \<and> drop_go (- 1 :: 64 word) [1, 2, 3 :: T] = [1, 2, 3]"
    by blast+
  from take_go_drop_go_bounds [of "7 :: 64 word" "[1, 2, 3 :: T]" ?h ?from "\<lambda>c. 2 * c"
      "fst ?run" "snd ?run"]
    take_go_drop_go_bounds [of "2 :: 64 word" "[1, 2, 3 :: T]" ?h ?from "\<lambda>c. 2 * c"
      "fst ?run" "snd ?run"]
  have pos_n: "take_go (7 :: 64 word) [1, 2, 3 :: T] = [1, 2, 3]
      \<and> take_go (2 :: 64 word) [1, 2, 3 :: T] = [1, 2]
      \<and> int (length [1, 2, 3 :: T]) \<le> sint (7 :: 64 word)
      \<and> drop_go (7 :: 64 word) [1, 2, 3 :: T] = []"
    by simp
  from mem neg_n pos_n ok neg to el show ?thesis
    by simp
qed

text \<open>
  Claim C10. \<^verbatim>\<open>foldlT\<close> and \<^verbatim>\<open>foldrT\<close> terminate on every slice, for every \<open>f\<close> and \<open>z\<close>: each
  recursive call is on \<^verbatim>\<open>xs[1:]\<close>, one element shorter, and the recursion is \<open>len(s)\<close> calls
  deep. With a stack of \<open>d\<close> frames for the recursive calls, the functions return their
  value when \<open>len(s) \<le> d\<close> and run out of stack otherwise; \<open>len(s)\<close> frames are enough.
\<close>

theorem foldlT_foldrT_terminate:
  "foldlT_depth d f z s = (if length s \<le> d then Some (foldlT f z s) else None)
   \<and> foldrT_depth d f z s = (if length s \<le> d then Some (foldrT f z s) else None)
   \<and> foldlT_depth (length s) f z s = Some (foldlT f z s)
   \<and> foldrT_depth (length s) f z s = Some (foldrT f z s)
   \<and> length (drop 1 s) = length s - 1"
  by (simp add: foldlT_depth_eq foldrT_depth_eq foldlT_eq foldrT_eq)

text \<open>Three frames and two frames on \<open>[1, 2, 3]\<close>.\<close>

theorem foldlT_foldrT_terminate_witness:
  "foldlT_depth 3 sub 0 [1, 2, 3] = Some (- 6)
   \<and> foldrT_depth 3 sub 0 [1, 2, 3] = Some 2
   \<and> foldlT_depth 2 sub 0 [1, 2, 3] = None
   \<and> foldrT_depth 2 sub 0 [1, 2, 3] = None"
  using foldlT_foldrT_terminate [of 3 sub 0 "[1, 2, 3]"]
    foldlT_foldrT_terminate [of 2 sub 0 "[1, 2, 3]"]
  by (simp add: foldlT_eq foldrT_eq sub_def)


subsection \<open>Programs that return under every schedule\<close>

lemma returns_alwaysI:
  fixes m :: "'s \<Rightarrow> nat"
  assumes init: "I init"
    and pres: "\<And>st st'. I st \<Longrightarrow> nxt st st' \<Longrightarrow> I st' \<and> m st' < m st"
    and good: "\<And>st. I st \<Longrightarrow>
      ok st \<and> (case res st of Some r' \<Rightarrow> r' = r | None \<Rightarrow> \<exists>st'. nxt st st')"
  shows "returns_always nxt ok res init r"
proof -
  have inv: "I st" if "nxt\<^sup>*\<^sup>* init st" for st
    using that by (induction rule: rtranclp_induct) (auto simp: init dest: pres)
  have "wfp (\<lambda>st' st. nxt\<^sup>*\<^sup>* init st \<and> nxt st st')"
    by (rule wfp_if_convertible_to_nat [where f = m]) (auto dest: inv pres)
  with inv good show ?thesis
    unfolding returns_always_def by blast
qed

lemma returns_always_some:
  assumes "returns_always nxt ok res init r"
  shows "\<exists>st. nxt\<^sup>*\<^sup>* init st \<and> res st = Some r"
proof -
  let ?R = "\<lambda>st' st. nxt\<^sup>*\<^sup>* init st \<and> nxt st st'"
  from assms have wf: "wfp ?R"
    and good: "\<And>st. nxt\<^sup>*\<^sup>* init st \<Longrightarrow>
      (case res st of Some r' \<Rightarrow> r' = r | None \<Rightarrow> \<exists>st'. nxt st st')"
    unfolding returns_always_def by blast+
  have "nxt\<^sup>*\<^sup>* init st \<longrightarrow> (\<exists>st'. nxt\<^sup>*\<^sup>* init st' \<and> res st' = Some r)" for st
  proof (induction st rule: wfp_induct_rule [OF wf])
    case (1 st)
    show ?case
    proof
      assume reach: "nxt\<^sup>*\<^sup>* init st"
      show "\<exists>st'. nxt\<^sup>*\<^sup>* init st' \<and> res st' = Some r"
      proof (cases "res st")
        case None
        with good [OF reach] obtain st' where st': "nxt st st'" by auto
        with reach have "nxt\<^sup>*\<^sup>* init st'" by auto
        with 1 reach st' show ?thesis by blast
      next
        case (Some r')
        with good [OF reach] reach show ?thesis by auto
      qed
    qed
  qed
  then show ?thesis by blast
qed

lemma step_iff: "step st st' \<longleftrightarrow> st' \<in> set (successors st)"
  by (simp add: step_def)

lemma can_step: "Ex (step st) \<longleftrightarrow> successors st \<noteq> []"
  by (cases "successors st") (auto simp: step_def)

subsection \<open>\<^verbatim>\<open>from_chan(to_chan(s))\<close>\<close>

text \<open>The successors of each state the program reaches.\<close>

lemma succ_send:
  "successors \<lparr>closed = {}, goroutines = [From_chan 0 out, To_chan 0 (n # ns)], failed = None\<rparr> =
   [\<lparr>closed = {}, goroutines = [From_chan 0 (out @ [n]), To_chan 0 ns], failed = None\<rparr>]"
  by (simp add: successors_def alone_def handoff_def)

lemma succ_close:
  "successors \<lparr>closed = {}, goroutines = [From_chan 0 out, To_chan 0 []], failed = None\<rparr> =
   [\<lparr>closed = {0}, goroutines = [From_chan 0 out, Exited], failed = None\<rparr>]"
  by (simp add: successors_def alone_def handoff_def)

lemma succ_return:
  "successors \<lparr>closed = {0}, goroutines = [From_chan 0 out, Exited], failed = None\<rparr> =
   [\<lparr>closed = {0}, goroutines = [Returned out, Exited], failed = None\<rparr>]"
  by (simp add: successors_def alone_def handoff_def)

lemma succ_final:
  "successors \<lparr>closed = {0}, goroutines = [Returned out, Exited], failed = None\<rparr> = []"
  by (simp add: successors_def alone_def handoff_def)

lemmas succ2 = succ_send succ_close succ_return succ_final

lemma drain_init: "drain s (from_chan_to_chan s)"
  by (simp add: drain_def from_chan_to_chan_def)

lemma drain_step:
  assumes "drain s st" and "step st st'"
  shows "drain s st' \<and> steps_left st' < steps_left st"
proof -
  from assms(1) consider
    (sending) out n ns where "s = out @ n # ns"
      "st = \<lparr>closed = {}, goroutines = [From_chan 0 out, To_chan 0 (n # ns)], failed = None\<rparr>"
  | (closing)
      "st = \<lparr>closed = {}, goroutines = [From_chan 0 s, To_chan 0 []], failed = None\<rparr>"
  | (closed)
      "st = \<lparr>closed = {0}, goroutines = [From_chan 0 s, Exited], failed = None\<rparr>"
  | (returned)
      "st = \<lparr>closed = {0}, goroutines = [Returned s, Exited], failed = None\<rparr>"
    unfolding drain_def by (metis append_Nil2 list.exhaust)
  then show ?thesis
  proof cases
    case sending
    with assms(2) have "st' = \<lparr>closed = {}, goroutines = [From_chan 0 (out @ [n]), To_chan 0 ns], failed = None\<rparr>"
      by (simp add: step_iff succ2)
    with sending show ?thesis
      by (auto simp: drain_def steps_left_def)
  next
    case closing
    with assms(2) show ?thesis
      by (simp add: step_iff succ2 drain_def steps_left_def)
  next
    case closed
    with assms(2) show ?thesis
      by (simp add: step_iff succ2 drain_def steps_left_def)
  next
    case returned
    with assms(2) show ?thesis
      by (simp add: step_iff succ2)
  qed
qed

lemma drain_good:
  assumes "drain s st"
  shows "failed st = None \<and> (case result st of Some r' \<Rightarrow> r' = s | None \<Rightarrow> \<exists>st'. step st st')"
proof -
  from assms consider
    (sending) out n ns where "s = out @ n # ns"
      "st = \<lparr>closed = {}, goroutines = [From_chan 0 out, To_chan 0 (n # ns)], failed = None\<rparr>"
  | (closing)
      "st = \<lparr>closed = {}, goroutines = [From_chan 0 s, To_chan 0 []], failed = None\<rparr>"
  | (closed)
      "st = \<lparr>closed = {0}, goroutines = [From_chan 0 s, Exited], failed = None\<rparr>"
  | (returned)
      "st = \<lparr>closed = {0}, goroutines = [Returned s, Exited], failed = None\<rparr>"
    unfolding drain_def by (metis append_Nil2 list.exhaust)
  then show ?thesis
    by cases (simp_all add: result_def can_step succ2)
qed

lemma from_chan_to_chan_returns:
  "returns_always step (\<lambda>st. failed st = None) result (from_chan_to_chan s) s"
  by (rule returns_alwaysI [where I = "drain s" and m = steps_left])
    (simp_all add: drain_init drain_step drain_good)

subsection \<open>\<^verbatim>\<open>from_chan(mapchanT(f, to_chan(s)))\<close>\<close>

lemma succ_A_cons:
  "successors \<lparr>closed = {}, goroutines = [From_chan (Suc 0) out, To_chan 0 (n # ns), Mapchan_recv f 0 (Suc 0)], failed = None\<rparr> =
   [\<lparr>closed = {}, goroutines = [From_chan (Suc 0) out, To_chan 0 ns, Mapchan_send f 0 (Suc 0) n], failed = None\<rparr>]"
  by (simp add: successors_def alone_def handoff_def)

lemma succ_A_nil:
  "successors \<lparr>closed = {}, goroutines = [From_chan (Suc 0) out, To_chan 0 [], Mapchan_recv f 0 (Suc 0)], failed = None\<rparr> =
   [\<lparr>closed = {0}, goroutines = [From_chan (Suc 0) out, Exited, Mapchan_recv f 0 (Suc 0)], failed = None\<rparr>]"
  by (simp add: successors_def alone_def handoff_def)

lemma succ_B_cons:
  "successors \<lparr>closed = {}, goroutines = [From_chan (Suc 0) out, To_chan 0 (n # ns), Mapchan_send f 0 (Suc 0) i], failed = None\<rparr> =
   [\<lparr>closed = {}, goroutines = [From_chan (Suc 0) (out @ [f i]), To_chan 0 (n # ns), Mapchan_recv f 0 (Suc 0)], failed = None\<rparr>]"
  by (simp add: successors_def alone_def handoff_def)

lemma succ_B_nil:
  "successors \<lparr>closed = {}, goroutines = [From_chan (Suc 0) out, To_chan 0 [], Mapchan_send f 0 (Suc 0) i], failed = None\<rparr> =
   [\<lparr>closed = {0}, goroutines = [From_chan (Suc 0) out, Exited, Mapchan_send f 0 (Suc 0) i], failed = None\<rparr>,
    \<lparr>closed = {}, goroutines = [From_chan (Suc 0) (out @ [f i]), To_chan 0 [], Mapchan_recv f 0 (Suc 0)], failed = None\<rparr>]"
  by (simp add: successors_def alone_def handoff_def)

lemma succ_C:
  "successors \<lparr>closed = {0}, goroutines = [From_chan (Suc 0) out, Exited, Mapchan_send f 0 (Suc 0) i], failed = None\<rparr> =
   [\<lparr>closed = {0}, goroutines = [From_chan (Suc 0) (out @ [f i]), Exited, Mapchan_recv f 0 (Suc 0)], failed = None\<rparr>]"
  by (simp add: successors_def alone_def handoff_def)

lemma succ_D:
  "successors \<lparr>closed = {0}, goroutines = [From_chan (Suc 0) out, Exited, Mapchan_recv f 0 (Suc 0)], failed = None\<rparr> =
   [\<lparr>closed = {0}, goroutines = [From_chan (Suc 0) out, Exited, Mapchan_close (Suc 0)], failed = None\<rparr>]"
  by (simp add: successors_def alone_def handoff_def)

lemma succ_E:
  "successors \<lparr>closed = {0}, goroutines = [From_chan (Suc 0) out, Exited, Mapchan_close (Suc 0)], failed = None\<rparr> =
   [\<lparr>closed = {Suc 0, 0}, goroutines = [From_chan (Suc 0) out, Exited, Exited], failed = None\<rparr>]"
  by (simp add: successors_def alone_def handoff_def)

lemma succ_F:
  "successors \<lparr>closed = {Suc 0, 0}, goroutines = [From_chan (Suc 0) out, Exited, Exited], failed = None\<rparr> =
   [\<lparr>closed = {Suc 0, 0}, goroutines = [Returned out, Exited, Exited], failed = None\<rparr>]"
  by (simp add: successors_def alone_def handoff_def)

lemma succ_G:
  "successors \<lparr>closed = {Suc 0, 0}, goroutines = [Returned out, Exited, Exited], failed = None\<rparr> = []"
  by (simp add: successors_def alone_def handoff_def)

lemmas succ3 = succ_A_cons succ_A_nil succ_B_cons succ_B_nil succ_C succ_D succ_E succ_F succ_G


lemma relay_init: "relay f s (from_chan_mapchanT_to_chan f s)"
  using relay.receiving [of s "[]" s f]
  by (simp add: from_chan_mapchanT_to_chan_def)

lemma relay_step:
  assumes "relay f s st" and "step st st'"
  shows "relay f s st' \<and> steps_left st' < steps_left st"
  using assms(1)
proof (cases rule: relay.cases)
  case (receiving pre ns)
  show ?thesis
  proof (cases ns)
    case Nil
    with receiving assms(2) show ?thesis
      by (auto simp: step_def succ3 steps_left_def intro: relay.drained)
  next
    case (Cons n ns')
    with receiving assms(2) show ?thesis
      by (auto simp: step_def succ3 steps_left_def intro: relay.holding)
  qed
next
  case (holding pre i ns)
  have relayed: "relay f s \<lparr>closed = {},
      goroutines = [From_chan (Suc 0) (map f pre @ [f i]), To_chan 0 ns, Mapchan_recv f 0 (Suc 0)],
      failed = None\<rparr>"
    using relay.receiving [of s "pre @ [i]" ns f] holding(2) by simp
  show ?thesis
  proof (cases ns)
    case Nil
    with holding assms(2) consider
      "st' = \<lparr>closed = {0},
         goroutines = [From_chan (Suc 0) (map f pre), Exited, Mapchan_send f 0 (Suc 0) i],
         failed = None\<rparr>"
    | "st' = \<lparr>closed = {},
         goroutines = [From_chan (Suc 0) (map f pre @ [f i]), To_chan 0 ns, Mapchan_recv f 0 (Suc 0)],
         failed = None\<rparr>"
      by (auto simp: step_def succ3)
    then show ?thesis
    proof cases
      case 1
      with holding Nil show ?thesis
        by (simp add: steps_left_def relay.holding_last)
    next
      case 2
      with holding Nil relayed show ?thesis
        by (simp add: steps_left_def)
    qed
  next
    case (Cons n ns')
    with holding assms(2) have "st' = \<lparr>closed = {},
        goroutines = [From_chan (Suc 0) (map f pre @ [f i]), To_chan 0 ns, Mapchan_recv f 0 (Suc 0)],
        failed = None\<rparr>"
      by (simp add: step_def succ3)
    with holding Cons relayed show ?thesis
      by (simp add: steps_left_def)
  qed
next
  case (holding_last pre i)
  with assms(2) have "st' = \<lparr>closed = {0},
      goroutines = [From_chan (Suc 0) (map f pre @ [f i]), Exited, Mapchan_recv f 0 (Suc 0)],
      failed = None\<rparr>"
    by (simp add: step_def succ3)
  with holding_last relay.drained [of f s] show ?thesis
    by (simp add: steps_left_def)
next
  case drained
  with assms(2) show ?thesis
    by (simp add: step_def succ3 steps_left_def relay.closing)
next
  case closing
  with assms(2) show ?thesis
    by (simp add: step_def succ3 steps_left_def relay.all_closed)
next
  case all_closed
  with assms(2) show ?thesis
    by (simp add: step_def succ3 steps_left_def relay.returned)
next
  case returned
  with assms(2) show ?thesis
    by (simp add: step_def succ3)
qed

lemma relay_good:
  assumes "relay f s st"
  shows "failed st = None \<and>
    (case result st of Some r' \<Rightarrow> r' = map f s | None \<Rightarrow> \<exists>st'. step st st')"
  using assms
proof (cases rule: relay.cases)
  case (receiving pre ns)
  then show ?thesis
    by (cases ns) (simp_all add: result_def can_step succ3)
next
  case (holding pre i ns)
  then show ?thesis
    by (cases ns) (simp_all add: result_def can_step succ3)
qed (simp_all add: result_def can_step succ3)

lemma from_chan_mapchanT_to_chan_returns:
  "returns_always step (\<lambda>st. failed st = None) result (from_chan_mapchanT_to_chan f s) (map f s)"
  by (rule returns_alwaysI [where I = "relay f s" and m = steps_left])
    (simp_all add: relay_init relay_step relay_good)

subsection \<open>The channel claims\<close>

lemma drain_returned:
  assumes "drain s st" and "result st = Some out"
  shows "st = \<lparr>closed = {0}, goroutines = [Returned s, Exited], failed = None\<rparr>"
  using assms by (auto simp: drain_def result_def)

lemma relay_returned:
  assumes "relay f s st" and "result st = Some out"
  shows "st = \<lparr>closed = {Suc 0, 0}, goroutines = [Returned (map f s), Exited, Exited], failed = None\<rparr>"
  using assms by (cases rule: relay.cases) (simp_all add: result_def)

lemma reachable_invariant:
  assumes "nxt\<^sup>*\<^sup>* init st" and "I init" and "\<And>st st'. I st \<Longrightarrow> nxt st st' \<Longrightarrow> I st'"
  shows "I st"
  using assms by (induction rule: rtranclp_induct) auto

lemma drain_reachable: "step\<^sup>*\<^sup>* (from_chan_to_chan s) st \<Longrightarrow> drain s st"
  by (erule reachable_invariant) (simp_all add: drain_init drain_step)

lemma relay_reachable: "step\<^sup>*\<^sup>* (from_chan_mapchanT_to_chan f s) st \<Longrightarrow> relay f s st"
  by (erule reachable_invariant) (simp_all add: relay_init relay_step)

lemma second_read_2:
  "returns_always step (\<lambda>st. failed st = None) result
     \<lparr>closed = {0}, goroutines = [From_chan 0 [], Exited], failed = None\<rparr> []"
proof (rule returns_alwaysI [where m = steps_left and
      I = "\<lambda>st. st = \<lparr>closed = {0}, goroutines = [From_chan 0 [], Exited], failed = None\<rparr>
         \<or> st = \<lparr>closed = {0}, goroutines = [Returned [], Exited], failed = None\<rparr>"])
  fix st st' :: "'a system"
  assume "st = \<lparr>closed = {0}, goroutines = [From_chan 0 [], Exited], failed = None\<rparr>
         \<or> st = \<lparr>closed = {0}, goroutines = [Returned [], Exited], failed = None\<rparr>"
    and "step st st'"
  then show "(st' = \<lparr>closed = {0}, goroutines = [From_chan 0 [], Exited], failed = None\<rparr>
         \<or> st' = \<lparr>closed = {0}, goroutines = [Returned [], Exited], failed = None\<rparr>)
       \<and> steps_left st' < steps_left st"
    by (auto simp: step_def succ2 steps_left_def)
next
  fix st :: "'a system"
  assume "st = \<lparr>closed = {0}, goroutines = [From_chan 0 [], Exited], failed = None\<rparr>
         \<or> st = \<lparr>closed = {0}, goroutines = [Returned [], Exited], failed = None\<rparr>"
  then show "failed st = None \<and>
      (case result st of Some r' \<Rightarrow> r' = [] | None \<Rightarrow> \<exists>st'. step st st')"
    by (auto simp: result_def can_step succ2)
qed simp

lemma second_read_3:
  "returns_always step (\<lambda>st. failed st = None) result
     \<lparr>closed = {Suc 0, 0}, goroutines = [From_chan (Suc 0) [], Exited, Exited], failed = None\<rparr> []"
proof (rule returns_alwaysI [where m = steps_left and
      I = "\<lambda>st. st = \<lparr>closed = {Suc 0, 0}, goroutines = [From_chan (Suc 0) [], Exited, Exited], failed = None\<rparr>
         \<or> st = \<lparr>closed = {Suc 0, 0}, goroutines = [Returned [], Exited, Exited], failed = None\<rparr>"])
  fix st st' :: "'a system"
  assume "st = \<lparr>closed = {Suc 0, 0}, goroutines = [From_chan (Suc 0) [], Exited, Exited], failed = None\<rparr>
         \<or> st = \<lparr>closed = {Suc 0, 0}, goroutines = [Returned [], Exited, Exited], failed = None\<rparr>"
    and "step st st'"
  then show "(st' = \<lparr>closed = {Suc 0, 0}, goroutines = [From_chan (Suc 0) [], Exited, Exited], failed = None\<rparr>
         \<or> st' = \<lparr>closed = {Suc 0, 0}, goroutines = [Returned [], Exited, Exited], failed = None\<rparr>)
       \<and> steps_left st' < steps_left st"
    by (auto simp: step_def succ3 steps_left_def)
next
  fix st :: "'a system"
  assume "st = \<lparr>closed = {Suc 0, 0}, goroutines = [From_chan (Suc 0) [], Exited, Exited], failed = None\<rparr>
         \<or> st = \<lparr>closed = {Suc 0, 0}, goroutines = [Returned [], Exited, Exited], failed = None\<rparr>"
  then show "failed st = None \<and>
      (case result st of Some r' \<Rightarrow> r' = [] | None \<Rightarrow> \<exists>st'. step st st')"
    by (auto simp: result_def can_step succ3)
qed simp

text \<open>In any program, a receive on a closed channel is enabled at once.\<close>

lemma alone_in_successors:
  assumes "failed st = None" and "i < length (goroutines st)" and "st' \<in> set (alone i st)"
  shows "step st st'"
  using assms unfolding step_def successors_def
  by (auto simp: Let_def intro!: bexI [where x = i])

lemma from_chan_closed_enabled:
  assumes "failed st = None" and "goroutines st \<noteq> []" and "c \<in> closed st"
  shows "step (call_from_chan c st)
           (st\<lparr>goroutines := (goroutines st)[0 := Returned []]\<rparr>)"
proof (rule alone_in_successors [where i = 0])
  show "failed (call_from_chan c st) = None"
    using assms by (simp add: call_from_chan_def)
  show "0 < length (goroutines (call_from_chan c st))"
    using assms by (simp add: call_from_chan_def)
  show "st\<lparr>goroutines := (goroutines st)[0 := Returned []]\<rparr> \<in> set (alone 0 (call_from_chan c st))"
    using assms by (simp add: call_from_chan_def alone_def)
qed

text \<open>
  Claim C8. \<^verbatim>\<open>from_chan(to_chan(s))\<close> is \<open>s\<close>: under every schedule the program never panics,
  never deadlocks before \<^verbatim>\<open>from_chan\<close> has returned and never runs for ever, and the slice
  \<^verbatim>\<open>from_chan\<close> returns is \<open>s\<close>, its elements in their order; and it does return.
\<close>

theorem from_chan_to_chan_identity:
  "returns_always step (\<lambda>st. failed st = None) result (from_chan_to_chan s) s
   \<and> (\<exists>st. step\<^sup>*\<^sup>* (from_chan_to_chan s) st \<and> result st = Some s)"
  using from_chan_to_chan_returns [of s] returns_always_some [OF from_chan_to_chan_returns [of s]]
  by simp

lemma run_from_chan_to_chan:
  "step\<^sup>*\<^sup>* (from_chan_to_chan [1, 2 :: T])
     \<lparr>closed = {0}, goroutines = [Returned [1, 2], Exited], failed = None\<rparr>"
proof -
  let ?st0 = "\<lparr>closed = {}, goroutines = [From_chan 0 [], To_chan 0 [1, 2 :: T]], failed = None\<rparr>"
  let ?st1 = "\<lparr>closed = {}, goroutines = [From_chan 0 [1], To_chan 0 [2 :: T]], failed = None\<rparr>"
  let ?st2 = "\<lparr>closed = {}, goroutines = [From_chan 0 [1, 2], To_chan 0 ([] :: T list)], failed = None\<rparr>"
  let ?st3 = "\<lparr>closed = {0}, goroutines = [From_chan 0 [1, 2 :: T], Exited], failed = None\<rparr>"
  let ?st4 = "\<lparr>closed = {0}, goroutines = [Returned [1, 2 :: T], Exited], failed = None\<rparr>"
  have "step ?st0 ?st1" "step ?st1 ?st2" "step ?st2 ?st3" "step ?st3 ?st4"
    by (simp_all add: step_def successors_def alone_def handoff_def)
  then have "step\<^sup>*\<^sup>* ?st0 ?st4"
    by (meson rtranclp.rtrancl_into_rtrancl rtranclp.rtrancl_refl)
  then show ?thesis
    by (simp add: from_chan_to_chan_def)
qed

lemma run_from_chan_mapchanT_to_chan:
  "step\<^sup>*\<^sup>* (from_chan_mapchanT_to_chan (\<lambda>i. i * 2) [1, 2 :: T])
     \<lparr>closed = {1, 0}, goroutines = [Returned [2, 4], Exited, Exited], failed = None\<rparr>"
proof -
  let ?f = "\<lambda>i :: T. i * 2"
  let ?st0 = "\<lparr>closed = {}, goroutines = [From_chan 1 [], To_chan 0 [1, 2], Mapchan_recv ?f 0 1], failed = None\<rparr>"
  let ?st1 = "\<lparr>closed = {}, goroutines = [From_chan 1 [], To_chan 0 [2], Mapchan_send ?f 0 1 1], failed = None\<rparr>"
  let ?st2 = "\<lparr>closed = {}, goroutines = [From_chan 1 [2], To_chan 0 [2], Mapchan_recv ?f 0 1], failed = None\<rparr>"
  let ?st3 = "\<lparr>closed = {}, goroutines = [From_chan 1 [2], To_chan 0 [], Mapchan_send ?f 0 1 2], failed = None\<rparr>"
  let ?st4 = "\<lparr>closed = {}, goroutines = [From_chan 1 [2, 4], To_chan 0 [], Mapchan_recv ?f 0 1], failed = None\<rparr>"
  let ?st5 = "\<lparr>closed = {0}, goroutines = [From_chan 1 [2, 4], Exited, Mapchan_recv ?f 0 1], failed = None\<rparr>"
  let ?st6 = "\<lparr>closed = {0}, goroutines = [From_chan 1 [2, 4], Exited, Mapchan_close 1], failed = None\<rparr>"
  let ?st7 = "\<lparr>closed = {1, 0}, goroutines = [From_chan 1 [2, 4 :: T], Exited, Exited], failed = None\<rparr>"
  let ?st8 = "\<lparr>closed = {1, 0}, goroutines = [Returned [2, 4 :: T], Exited, Exited], failed = None\<rparr>"
  have "step ?st0 ?st1" "step ?st1 ?st2" "step ?st2 ?st3" "step ?st3 ?st4"
    "step ?st4 ?st5" "step ?st5 ?st6" "step ?st6 ?st7" "step ?st7 ?st8"
    by (simp_all add: step_def successors_def alone_def handoff_def)
  then have "step\<^sup>*\<^sup>* ?st0 ?st8"
    by (meson rtranclp.rtrancl_into_rtrancl rtranclp.rtrancl_refl)
  then show ?thesis
    by (simp add: from_chan_mapchanT_to_chan_def)
qed

text \<open>The run of \<^verbatim>\<open>from_chan(to_chan([1, 2]))\<close>: its last state is reached and holds \<open>[1, 2]\<close>.\<close>

theorem from_chan_to_chan_identity_witness:
  "step\<^sup>*\<^sup>* (from_chan_to_chan [1, 2 :: T])
      \<lparr>closed = {0}, goroutines = [Returned [1, 2], Exited], failed = None\<rparr>
   \<and> failed \<lparr>closed = {0}, goroutines = [Returned [1, 2 :: T], Exited], failed = None\<rparr> = None
   \<and> result \<lparr>closed = {0}, goroutines = [Returned [1, 2 :: T], Exited], failed = None\<rparr>
       = Some [1, 2]"
proof -
  let ?st = "\<lparr>closed = {0}, goroutines = [Returned [1, 2 :: T], Exited], failed = None\<rparr>"
  from from_chan_to_chan_identity [of "[1, 2 :: T]"] run_from_chan_to_chan
  have "failed ?st = None \<and>
    (case result ?st of Some r' \<Rightarrow> r' = [1, 2] | None \<Rightarrow> \<exists>st'. step ?st st')"
    unfolding returns_always_def by blast
  with run_from_chan_to_chan show ?thesis
    by (simp add: result_def)
qed

text \<open>
  Claim C1. \<^verbatim>\<open>mapT(f, s)\<close> and \<^verbatim>\<open>from_chan(mapchanT(f, to_chan(s)))\<close> agree: \<^verbatim>\<open>mapT\<close> returns
  \<open>map f s\<close> without a panic; under every schedule the pipeline never panics, never
  deadlocks before \<^verbatim>\<open>from_chan\<close> has returned, never runs for ever, and returns \<open>map f s\<close>;
  it does return; and whatever it returns is what \<^verbatim>\<open>mapT\<close> returns, of the length of \<open>s\<close>.
\<close>

theorem mapT_eq_from_chan_mapchanT_to_chan:
  "mapT f s = Inr (map f s)
   \<and> returns_always step (\<lambda>st. failed st = None) result
        (from_chan_mapchanT_to_chan f s) (map f s)
   \<and> (\<exists>st. step\<^sup>*\<^sup>* (from_chan_mapchanT_to_chan f s) st \<and> result st = Some (map f s))
   \<and> (\<forall>st r. step\<^sup>*\<^sup>* (from_chan_mapchanT_to_chan f s) st \<and> result st = Some r
        \<longrightarrow> mapT f s = Inr r \<and> length r = length s)"
proof -
  have always: "returns_always step (\<lambda>st. failed st = None) result
      (from_chan_mapchanT_to_chan f s) (map f s)"
    by (rule from_chan_mapchanT_to_chan_returns)
  have "mapT f s = Inr r \<and> length r = length s"
    if "step\<^sup>*\<^sup>* (from_chan_mapchanT_to_chan f s) st" and "result st = Some r" for st r
    using relay_returned [OF relay_reachable [OF that(1)] that(2)] that(2)
    by (auto simp: result_def mapT_eq)
  with always returns_always_some [OF always] show ?thesis
    by (auto simp: mapT_eq)
qed

text \<open>Doubling \<open>[1, 2]\<close>: \<^verbatim>\<open>mapT\<close> gives \<open>[2, 4]\<close>, and a run of the pipeline returns it.\<close>

theorem mapT_eq_from_chan_mapchanT_to_chan_witness:
  "mapT (\<lambda>i. i * 2) [1, 2 :: T] = Inr [2, 4]
   \<and> step\<^sup>*\<^sup>* (from_chan_mapchanT_to_chan (\<lambda>i. i * 2) [1, 2 :: T])
        \<lparr>closed = {1, 0}, goroutines = [Returned [2, 4], Exited, Exited], failed = None\<rparr>
   \<and> result \<lparr>closed = {1, 0}, goroutines = [Returned [2, 4 :: T], Exited, Exited],
        failed = None\<rparr> = Some [2, 4]"
proof -
  let ?st = "\<lparr>closed = {1, 0}, goroutines = [Returned [2, 4 :: T], Exited, Exited], failed = None\<rparr>"
  have res: "result ?st = Some [2, 4]"
    by (simp add: result_def)
  from mapT_eq_from_chan_mapchanT_to_chan [of "\<lambda>i. i * 2" "[1, 2 :: T]"]
    run_from_chan_mapchanT_to_chan res
  have "mapT (\<lambda>i. i * 2) [1, 2 :: T] = Inr [2, 4]"
    by blast
  with run_from_chan_mapchanT_to_chan res show ?thesis
    by simp
qed

text \<open>
  Claim C9. Once a stream's producer has closed it and \<^verbatim>\<open>from_chan\<close> has drained it, a second
  \<^verbatim>\<open>from_chan\<close> on the same stream returns the empty slice and does not block: for the
  stream of \<^verbatim>\<open>to_chan\<close> (channel 0) and for the stream of \<^verbatim>\<open>mapchanT\<close> (channel 1), the
  second call returns \<open>[]\<close> under every schedule; and in any program that has not
  panicked, \<^verbatim>\<open>from_chan\<close> on a closed channel can return \<open>[]\<close> at once.
\<close>

theorem second_from_chan_empty:
  "(step\<^sup>*\<^sup>* (from_chan_to_chan s) st \<and> result st = Some out \<longrightarrow>
      returns_always step (\<lambda>st. failed st = None) result (call_from_chan 0 st) [])
   \<and> (step\<^sup>*\<^sup>* (from_chan_mapchanT_to_chan f s) st \<and> result st = Some out \<longrightarrow>
      returns_always step (\<lambda>st. failed st = None) result (call_from_chan 1 st) [])
   \<and> (failed st = None \<and> goroutines st \<noteq> [] \<and> c \<in> closed st \<longrightarrow>
      step (call_from_chan c st) (st\<lparr>goroutines := (goroutines st)[0 := Returned []]\<rparr>))"
proof (intro conjI impI)
  assume "step\<^sup>*\<^sup>* (from_chan_to_chan s) st \<and> result st = Some out"
  then have "st = \<lparr>closed = {0}, goroutines = [Returned s, Exited], failed = None\<rparr>"
    by (blast intro: drain_returned drain_reachable)
  then show "returns_always step (\<lambda>st. failed st = None) result (call_from_chan 0 st) []"
    using second_read_2 [where 'a = 'a] by (simp add: call_from_chan_def)
next
  assume "step\<^sup>*\<^sup>* (from_chan_mapchanT_to_chan f s) st \<and> result st = Some out"
  then have "st = \<lparr>closed = {Suc 0, 0}, goroutines = [Returned (map f s), Exited, Exited],
      failed = None\<rparr>"
    by (blast intro: relay_returned relay_reachable)
  then show "returns_always step (\<lambda>st. failed st = None) result (call_from_chan 1 st) []"
    using second_read_3 [where 'a = 'a] by (simp add: call_from_chan_def)
next
  assume "failed st = None \<and> goroutines st \<noteq> [] \<and> c \<in> closed st"
  then show "step (call_from_chan c st) (st\<lparr>goroutines := (goroutines st)[0 := Returned []]\<rparr>)"
    by (simp add: from_chan_closed_enabled)
qed

text \<open>After \<^verbatim>\<open>from_chan(to_chan([1, 2]))\<close> has returned, the second call steps to \<open>[]\<close>.\<close>

theorem second_from_chan_empty_witness:
  "step\<^sup>*\<^sup>* (from_chan_to_chan [1, 2 :: T])
      \<lparr>closed = {0}, goroutines = [Returned [1, 2], Exited], failed = None\<rparr>
   \<and> result \<lparr>closed = {0}, goroutines = [Returned [1, 2 :: T], Exited], failed = None\<rparr>
       = Some [1, 2]
   \<and> returns_always step (\<lambda>st. failed st = None) result
       \<lparr>closed = {0}, goroutines = [From_chan 0 [], Exited :: T goroutine], failed = None\<rparr> []
   \<and> step \<lparr>closed = {0}, goroutines = [From_chan 0 [], Exited :: T goroutine], failed = None\<rparr>
       \<lparr>closed = {0}, goroutines = [Returned [], Exited], failed = None\<rparr>"
proof -
  let ?st = "\<lparr>closed = {0}, goroutines = [Returned [1, 2 :: T], Exited], failed = None\<rparr>"
  have res: "result ?st = Some [1, 2]"
    by (simp add: result_def)
  have ok: "failed ?st = None \<and> goroutines ?st \<noteq> [] \<and> 0 \<in> closed ?st"
    by simp
  from second_from_chan_empty [of "[1, 2 :: T]" ?st "[1, 2]" id 0]
    run_from_chan_to_chan res ok
  have "returns_always step (\<lambda>st. failed st = None) result (call_from_chan 0 ?st) []
    \<and> step (call_from_chan 0 ?st) (?st\<lparr>goroutines := (goroutines ?st)[0 := Returned []]\<rparr>)"
    by blast
  with run_from_chan_to_chan res show ?thesis
    by (simp add: call_from_chan_def)
qed

subsection \<open>The parallel map\<close>

lemma sum_list_map_update:
  fixes g :: "'a \<Rightarrow> nat"
  shows "j < length xs \<Longrightarrow>
    sum_list (map g (xs[j := y])) + g (xs ! j) = sum_list (map g xs) + g y"
proof (induction xs arbitrary: j)
  case Nil
  then show ?case by simp
next
  case (Cons x xs)
  then show ?case
    by (cases j) (simp_all add: add.assoc add.left_commute)
qed

lemma sum_list_map_ge:
  fixes g :: "'a \<Rightarrow> nat"
  shows "j < length xs \<Longrightarrow> g (xs ! j) \<le> sum_list (map g xs)"
  by (simp add: member_le_sum_list)

lemma owes_0_all_finished:
  assumes "sum_list (map owes ws) = 0" and "j < length ws"
  shows "ws ! j = Finished"
proof -
  from assms have "owes (ws ! j) = 0"
    using sum_list_map_ge [of j ws owes] by simp
  then show ?thesis
    by (cases "ws ! j") simp_all
qed

lemma owes_pos_some_unfinished:
  assumes "0 < sum_list (map owes ws)"
  shows "\<exists>j < length ws. ws ! j \<noteq> Finished"
proof (rule ccontr)
  assume "\<not> ?thesis"
  then have "\<forall>w \<in> set ws. owes w = 0"
    by (auto simp: in_set_conv_nth)
  then have "sum_list (map owes ws) = 0"
    by (simp add: sum_list_eq_0_iff)
  with assms show False by simp
qed

lemma pmap_inv_start: "pmap_inv f s (pmapT_start s)"
  by (simp add: pmap_inv_def pmapT_start_def Let_def)

lemma pmap_step_cases:
  assumes "pmap_step f s st st'"
  obtains (caller) "panicked st = None" "st' \<in> set (caller_step s st)"
  | (worker) j where "panicked st = None" "j < length (workers st)"
      "st' \<in> set (worker_step f j st)"
  using assms unfolding pmap_step_def pmap_successors_def
  by (auto split: if_splits)

lemma pmap_inv_caller:
  assumes inv: "pmap_inv f s st" and step: "st' \<in> set (caller_step s st)"
  shows "pmap_inv f s st' \<and> pmap_steps_left (length s) st' < pmap_steps_left (length s) st"
proof (cases "caller st")
  case (Loop i)
  with inv have i: "i = length (workers st)" and le: "i \<le> length s"
    by (simp_all add: pmap_inv_def)
  show ?thesis
  proof (cases "i < length s")
    case True
    with Loop step have st':
      "st' = st\<lparr>caller := Loop (Suc i), workers := workers st @ [Started i (s ! i)]\<rparr>"
      by (simp add: caller_step_def)
    have "pmap_inv f s st'"
      using inv True i unfolding pmap_inv_def st'
      by (auto simp: nth_append less_Suc_eq Suc_diff_Suc)
    moreover have "pmap_steps_left (length s) st' < pmap_steps_left (length s) st"
      using True Loop by (simp add: pmap_steps_left_def st')
    ultimately show ?thesis ..
  next
    case False
    with Loop step have st': "st' = st\<lparr>caller := Wait\<rparr>"
      by (simp add: caller_step_def)
    have "pmap_inv f s st'"
      using inv False i le unfolding pmap_inv_def st'
      by auto
    moreover have "pmap_steps_left (length s) st' < pmap_steps_left (length s) st"
      using Loop by (simp add: pmap_steps_left_def st')
    ultimately show ?thesis ..
  qed
next
  case Wait
  with inv have len: "length (workers st) = length s" "length (to_slice st) = length s"
    by (simp_all add: pmap_inv_def)
  from Wait step have zero: "wg st = 0" and st': "st' = st\<lparr>caller := Return (to_slice st)\<rparr>"
    by (simp_all add: caller_step_def split: if_splits)
  from inv zero len have "sum_list (map owes (workers st)) = 0"
    by (simp add: pmap_inv_def)
  then have fin: "workers st ! j = Finished" if "j < length s" for j
    using that len by (simp add: owes_0_all_finished)
  have "to_slice st ! j = f (s ! j)" if "j < length s" for j
  proof -
    from inv that len have "worker_ok f s (to_slice st) j (workers st ! j)"
      by (simp add: pmap_inv_def)
    with fin [OF that] show ?thesis by simp
  qed
  with len have "to_slice st = map f s"
    by (simp add: nth_equalityI)
  with inv len have "pmap_inv f s st'"
    unfolding pmap_inv_def st' by simp
  moreover have "pmap_steps_left (length s) st' < pmap_steps_left (length s) st"
    using Wait by (simp add: pmap_steps_left_def st')
  ultimately show ?thesis ..
next
  case (Return r)
  with step show ?thesis
    by (simp add: caller_step_def)
qed

lemma worker_ok_update:
  assumes "worker_ok f s to k w" and "k \<noteq> j"
  shows "worker_ok f s (to[j := x]) k w"
  using assms by (cases w) simp_all

lemma pmap_inv_worker:
  assumes inv: "pmap_inv f s st" and j: "j < length (workers st)"
    and step: "st' \<in> set (worker_step f j st)"
  shows "pmap_inv f s st' \<and> pmap_steps_left (length s) st' < pmap_steps_left (length s) st"
proof -
  from inv have ok: "worker_ok f s (to_slice st) k (workers st ! k)"
    if "k < length (workers st)" for k
    using that by (simp add: pmap_inv_def)
  from inv j have jlen: "j < length (to_slice st)"
    by (simp add: pmap_inv_def)
  from inv have wg: "wg st = int (length s - length (workers st))
      + int (sum_list (map owes (workers st)))"
    by (simp add: pmap_inv_def)
  show ?thesis
  proof (cases "workers st ! j")
    case (Started i v)
    with ok [OF j] have iv: "i = j" "v = s ! j"
      by simp_all
    with Started jlen step have st':
      "st' = st\<lparr>to_slice := (to_slice st)[j := f (s ! j)],
         workers := (workers st)[j := Deferred]\<rparr>"
      by (simp add: worker_step_def store_def)
    have owes: "sum_list (map owes ((workers st)[j := Deferred]))
        = sum_list (map owes (workers st))"
      using sum_list_map_update [OF j, of owes Deferred] Started by simp
    have "worker_ok f s ((to_slice st)[j := f (s ! j)]) k ((workers st)[j := Deferred] ! k)"
      if "k < length (workers st)" for k
      using ok [OF that] jlen that by (cases "k = j") (simp_all add: worker_ok_update)
    then have "pmap_inv f s st'"
      using inv unfolding pmap_inv_def st' by (simp add: owes)
    moreover have "pmap_steps_left (length s) st' < pmap_steps_left (length s) st"
      using sum_list_map_update [OF j, of worker_weight Deferred] Started
      by (simp add: pmap_steps_left_def st')
    ultimately show ?thesis ..
  next
    case Deferred
    with ok [OF j] have written: "to_slice st ! j = f (s ! j)"
      by simp
    have pos: "1 \<le> sum_list (map owes (workers st))"
      using sum_list_map_ge [OF j, of owes] Deferred by simp
    with wg have "\<not> wg st - 1 < 0"
      by simp
    with Deferred step have st':
      "st' = st\<lparr>wg := wg st - 1, workers := (workers st)[j := Finished]\<rparr>"
      by (simp add: worker_step_def)
    have "sum_list (map owes ((workers st)[j := Finished])) + 1
        = sum_list (map owes (workers st))"
      using sum_list_map_update [OF j, of owes Finished] Deferred by simp
    then have owes: "int (sum_list (map owes ((workers st)[j := Finished])))
        = int (sum_list (map owes (workers st))) - 1"
      by linarith
    have "worker_ok f s (to_slice st) k ((workers st)[j := Finished] ! k)"
      if "k < length (workers st)" for k
      using ok [OF that] written that by (cases "k = j") simp_all
    then have "pmap_inv f s st'"
      using inv unfolding pmap_inv_def st' by (simp add: owes)
    moreover have "pmap_steps_left (length s) st' < pmap_steps_left (length s) st"
      using sum_list_map_update [OF j, of worker_weight Finished] Deferred
      by (simp add: pmap_steps_left_def st')
    ultimately show ?thesis ..
  next
    case Finished
    with step show ?thesis
      by (simp add: worker_step_def)
  qed
qed

lemma pmap_inv_step:
  assumes "pmap_inv f s st" and "pmap_step f s st st'"
  shows "pmap_inv f s st' \<and> pmap_steps_left (length s) st' < pmap_steps_left (length s) st"
  using assms(2)
proof (cases rule: pmap_step_cases)
  case caller
  with assms(1) show ?thesis by (simp add: pmap_inv_caller)
next
  case (worker j)
  with assms(1) show ?thesis by (simp add: pmap_inv_worker)
qed

lemma worker_step_enabled: "workers st ! j \<noteq> Finished \<Longrightarrow> worker_step f j st \<noteq> []"
  by (cases "workers st ! j") (simp_all add: worker_step_def split: sum.splits)

lemma pmap_can_step:
  "(\<exists>st'. pmap_step f s st st') \<longleftrightarrow> pmap_successors f s st \<noteq> []"
  by (cases "pmap_successors f s st") (auto simp: pmap_step_def)

lemma pmap_inv_good:
  assumes inv: "pmap_inv f s st"
  shows "panicked st = None \<and>
    (case pmap_result st of Some r' \<Rightarrow> r' = map f s | None \<Rightarrow> \<exists>st'. pmap_step f s st st')"
proof (cases "caller st")
  case (Loop i)
  with inv show ?thesis
    by (simp add: pmap_inv_def pmap_result_def pmap_can_step pmap_successors_def caller_step_def)
next
  case Wait
  show ?thesis
  proof (cases "wg st = 0")
    case True
    with inv Wait show ?thesis
      by (simp add: pmap_inv_def pmap_result_def pmap_can_step pmap_successors_def caller_step_def)
  next
    case False
    from inv Wait have "wg st = int (sum_list (map owes (workers st)))"
      by (simp add: pmap_inv_def)
    with False have "0 < sum_list (map owes (workers st))"
      by linarith
    then obtain j where j: "j < length (workers st)" "workers st ! j \<noteq> Finished"
      using owes_pos_some_unfinished by blast
    then have "worker_step f j st \<noteq> []"
      by (simp add: worker_step_enabled)
    with j(1) have "pmap_successors f s st \<noteq> []"
      using inv by (auto simp: pmap_successors_def pmap_inv_def)
    with inv Wait show ?thesis
      by (simp add: pmap_inv_def pmap_result_def pmap_can_step)
  qed
next
  case (Return r)
  with inv show ?thesis
    by (simp add: pmap_inv_def pmap_result_def)
qed


lemma pmapT_returns:
  "returns_always (pmap_step f s) (\<lambda>st. panicked st = None) pmap_result
     (pmapT_start s) (map f s)"
  by (rule returns_alwaysI [where I = "pmap_inv f s" and m = "pmap_steps_left (length s)"])
    (simp_all add: pmap_inv_start pmap_inv_step pmap_inv_good)

lemma pmap_inv_reachable: "(pmap_step f s)\<^sup>*\<^sup>* (pmapT_start s) st \<Longrightarrow> pmap_inv f s st"
  by (erule reachable_invariant) (simp_all add: pmap_inv_start pmap_inv_step)

lemma run_pmapT:
  "(pmap_step (\<lambda>i. i * 2) [1, 2 :: T])\<^sup>*\<^sup>* (pmapT_start [1, 2 :: T])
     \<lparr>caller = Return [2, 4], to_slice = [2, 4], wg = 0, workers = [Finished, Finished],
      panicked = None\<rparr>"
proof -
  let ?nxt = "pmap_step (\<lambda>i. i * 2) [1, 2 :: T]"
  let ?st0 = "\<lparr>caller = Loop 0, to_slice = [0, 0 :: T], wg = 2, workers = [],
    panicked = None\<rparr>"
  let ?st1 = "\<lparr>caller = Loop 1, to_slice = [0, 0 :: T], wg = 2, workers = [Started 0 1],
    panicked = None\<rparr>"
  let ?st2 = "\<lparr>caller = Loop 2, to_slice = [0, 0 :: T], wg = 2,
    workers = [Started 0 1, Started 1 2], panicked = None\<rparr>"
  let ?st3 = "\<lparr>caller = Loop 2, to_slice = [0, 4 :: T], wg = 2,
    workers = [Started 0 1, Deferred], panicked = None\<rparr>"
  let ?st4 = "\<lparr>caller = Wait, to_slice = [0, 4 :: T], wg = 2,
    workers = [Started 0 1, Deferred], panicked = None\<rparr>"
  let ?st5 = "\<lparr>caller = Wait, to_slice = [2, 4 :: T], wg = 2,
    workers = [Deferred, Deferred], panicked = None\<rparr>"
  let ?st6 = "\<lparr>caller = Wait, to_slice = [2, 4 :: T], wg = 1,
    workers = [Deferred, Finished], panicked = None\<rparr>"
  let ?st7 = "\<lparr>caller = Wait, to_slice = [2, 4 :: T], wg = 0,
    workers = [Finished, Finished], panicked = None\<rparr>"
  let ?st8 = "\<lparr>caller = Return [2, 4], to_slice = [2, 4 :: T], wg = 0,
    workers = [Finished, Finished], panicked = None\<rparr>"
  have "?nxt ?st0 ?st1" "?nxt ?st1 ?st2" "?nxt ?st2 ?st3" "?nxt ?st3 ?st4"
    "?nxt ?st4 ?st5" "?nxt ?st5 ?st6" "?nxt ?st6 ?st7" "?nxt ?st7 ?st8"
    by (simp_all add: pmap_step_def pmap_successors_def caller_step_def worker_step_def
        store_def)
  then have "?nxt\<^sup>*\<^sup>* ?st0 ?st8"
    by (meson rtranclp.rtrancl_into_rtrancl rtranclp.rtrancl_refl)
  then show ?thesis
    by (simp add: pmapT_start_def)
qed

text \<open>
  Claim C2. \<^verbatim>\<open>pmapT(f, s)\<close> returns what \<^verbatim>\<open>mapT(f, s)\<close> returns, whatever the order the
  workers run in: under every schedule \<^verbatim>\<open>pmapT\<close> never panics, never deadlocks before it
  has returned, never runs for ever, and returns \<open>map f s\<close>; it does return; the slice it
  returns is the one \<^verbatim>\<open>mapT\<close> returns, has the length of \<open>s\<close> and holds \<open>f (s ! i)\<close> at every
  index \<open>i\<close>; and the worker started for index \<open>j\<close> writes index \<open>j\<close> only, with
  \<open>v = s ! j\<close>.
\<close>

theorem pmapT_eq_mapT:
  "mapT f s = Inr (map f s)
   \<and> returns_always (pmap_step f s) (\<lambda>st. panicked st = None) pmap_result
        (pmapT_start s) (map f s)
   \<and> (\<exists>st. (pmap_step f s)\<^sup>*\<^sup>* (pmapT_start s) st \<and> pmap_result st = Some (map f s))
   \<and> (\<forall>st r. (pmap_step f s)\<^sup>*\<^sup>* (pmapT_start s) st \<and> pmap_result st = Some r \<longrightarrow>
        mapT f s = Inr r \<and> length r = length s \<and> (\<forall>i < length s. r ! i = f (s ! i)))
   \<and> (\<forall>st j i v. (pmap_step f s)\<^sup>*\<^sup>* (pmapT_start s) st \<and> j < length (workers st)
        \<and> workers st ! j = Started i v \<longrightarrow> i = j \<and> v = s ! j)"
proof -
  have always: "returns_always (pmap_step f s) (\<lambda>st. panicked st = None) pmap_result
      (pmapT_start s) (map f s)"
    by (rule pmapT_returns)
  have ret: "mapT f s = Inr r \<and> length r = length s \<and> (\<forall>i < length s. r ! i = f (s ! i))"
    if "(pmap_step f s)\<^sup>*\<^sup>* (pmapT_start s) st" and "pmap_result st = Some r" for st r
  proof -
    from that(1) have "pmap_inv f s st"
      by (rule pmap_inv_reachable)
    with that(2) have "r = map f s"
      by (cases "caller st") (simp_all add: pmap_inv_def pmap_result_def)
    then show ?thesis
      by (simp add: mapT_eq)
  qed
  have args: "i = j \<and> v = s ! j"
    if "(pmap_step f s)\<^sup>*\<^sup>* (pmapT_start s) st" and "j < length (workers st)"
      and "workers st ! j = Started i v" for st j i v
  proof -
    from that(1) have "pmap_inv f s st"
      by (rule pmap_inv_reachable)
    with that(2) have "worker_ok f s (to_slice st) j (workers st ! j)"
      by (simp add: pmap_inv_def)
    with that(3) show ?thesis by simp
  qed
  from always returns_always_some [OF always] ret args show ?thesis
    unfolding mapT_eq by blast
qed

text \<open>
  Doubling \<open>[1, 2]\<close>, the second worker writing before the first and before the caller
  has reached \<^verbatim>\<open>wg.Wait()\<close>: the run returns \<open>[2, 4]\<close>, as \<^verbatim>\<open>mapT\<close> does.
\<close>

theorem pmapT_eq_mapT_witness:
  "(pmap_step (\<lambda>i. i * 2) [1, 2 :: T])\<^sup>*\<^sup>* (pmapT_start [1, 2 :: T])
     \<lparr>caller = Return [2, 4], to_slice = [2, 4], wg = 0, workers = [Finished, Finished],
      panicked = None\<rparr>
   \<and> pmap_result \<lparr>caller = Return [2, 4 :: T], to_slice = [2, 4], wg = 0,
       workers = [Finished, Finished], panicked = None\<rparr> = Some [2, 4]
   \<and> mapT (\<lambda>i. i * 2) [1, 2 :: T] = Inr [2, 4]"
proof -
  let ?st = "\<lparr>caller = Return [2, 4 :: T], to_slice = [2, 4], wg = 0,
    workers = [Finished, Finished], panicked = None\<rparr>"
  have res: "pmap_result ?st = Some [2, 4]"
    by (simp add: pmap_result_def)
  from pmapT_eq_mapT [of "\<lambda>i. i * 2" "[1, 2 :: T]"] run_pmapT res
  have "mapT (\<lambda>i. i * 2) [1, 2 :: T] = Inr [2, 4]"
    by blast
  with run_pmapT res show ?thesis
    by simp
qed

end
